theory Spec2Isabelle
  imports Main "HOL-Library.Sublist"
begin

section \<open>Characters and whitespace\<close>

text \<open>
  A Python \<open>str\<close> is modelled as a \<open>string\<close>; a character is a \<open>char\<close> (the code
  points below 256). \<open>str.isspace\<close> on one character, the regular expression class
  \<open>\s\<close> and \<open>str.strip()\<close> all use the same predicate in CPython; on the code points
  below 256 it holds for 9 to 13, 28 to 32, 133 and 160.
\<close>

definition isspace :: "char \<Rightarrow> bool" where
  "isspace c = ((of_char c :: nat) \<in> {9, 10, 11, 12, 13, 28, 29, 30, 31, 32, 133, 160})"

abbreviation space :: char where
  "space \<equiv> CHR '' ''"

abbreviation newline :: char where
  "newline \<equiv> CHR 0x0A"

text \<open>\<open>re.sub(r"\s+", " ", text)\<close>: every maximal run of whitespace becomes one space.\<close>

function sub_ws_plus :: "string \<Rightarrow> string" where
  "sub_ws_plus [] = []"
| "sub_ws_plus (c # cs) =
     (if isspace c then space # sub_ws_plus (dropWhile isspace cs)
      else c # sub_ws_plus cs)"
  by pat_completeness auto
termination
  by (relation "measure length") (auto simp: length_dropWhile_le less_Suc_eq_le)

text \<open>
  \<open>re.sub(r"\s{2,}", " ", text)\<close>: every maximal run of two or more whitespace
  characters becomes one space; a whitespace character standing alone is kept.
\<close>

function sub_ws_two :: "string \<Rightarrow> string" where
  "sub_ws_two [] = []"
| "sub_ws_two (c # cs) =
     (if isspace c then
        (case cs of
           [] \<Rightarrow> [c]
         | d # ds \<Rightarrow>
             if isspace d then space # sub_ws_two (dropWhile isspace ds)
             else c # d # sub_ws_two ds)
      else c # sub_ws_two cs)"
  by pat_completeness auto
termination
  by (relation "measure length")
     (auto simp: less_Suc_eq_le intro: le_SucI length_dropWhile_le)

text \<open>\<open>text.strip()\<close>: whitespace removed from both ends.\<close>

definition strip :: "string \<Rightarrow> string" where
  "strip s = rev (dropWhile isspace (rev (dropWhile isspace s)))"

text \<open>\<open>remove_extra_spaces(text)\<close> of \<open>convert.py\<close>.\<close>

definition remove_extra_spaces :: "string \<Rightarrow> string" where
  "remove_extra_spaces s = sub_ws_two (strip s)"

section \<open>The markup tree\<close>

text \<open>
  An \<open>xml.etree.ElementTree.Element\<close>: the tag (with its namespace in braces), the
  attribute dictionary in insertion order, the direct text, the tail text (each
  \<open>None\<close> or a string) and the children in document order.
\<close>

datatype element =
  Element (el_tag: string) (attrib: "(string \<times> string) list")
          (el_text: "string option") (tail: "string option") (children: "element list")

text \<open>Python truthiness of an optional string: neither \<open>None\<close> nor empty.\<close>

fun truthy :: "string option \<Rightarrow> bool" where
  "truthy None = False"
| "truthy (Some s) = (s \<noteq> [])"

text \<open>The string an optional string stands for where it is used only if truthy.\<close>

fun str_of :: "string option \<Rightarrow> string" where
  "str_of None = []"
| "str_of (Some s) = s"

text \<open>\<open>tag.split("}")[-1]\<close>: what follows the last closing brace.\<close>

definition local_name :: "string \<Rightarrow> string" where
  "local_name t = rev (takeWhile (\<lambda>c. c \<noteq> CHR ''}'') (rev t))"

definition tei :: "string \<Rightarrow> string" where
  "tei n = ''{http://www.tei-c.org/ns/1.0}'' @ n"

text \<open>
  \<open>element.find(".//tei:name", namespaces)\<close>: the first descendant, in document
  order, whose tag is the name in the TEI namespace; the element itself is not a
  candidate.
\<close>

fun iter :: "element \<Rightarrow> element list"
  and iter_list :: "element list \<Rightarrow> element list" where
  "iter (Element t a tx tt cs) = Element t a tx tt cs # iter_list cs"
| "iter_list [] = []"
| "iter_list (c # cs) = iter c @ iter_list cs"

definition find_descendant :: "string \<Rightarrow> element \<Rightarrow> element option" where
  "find_descendant n el = List.find (\<lambda>e. el_tag e = tei n) (iter_list (children el))"

section \<open>Canonical text\<close>

text \<open>
  \<open>get_element_text(element)\<close> for an element that is not \<open>None\<close> (every caller tests
  that first). \<open>get_children_text\<close> is the loop over the children: the parts they add
  to \<open>text_parts\<close>, joined.
\<close>

fun get_element_text :: "element \<Rightarrow> string"
  and get_children_text :: "element list \<Rightarrow> string" where
  "get_element_text (Element t a tx tt cs) =
     remove_extra_spaces ((if truthy tx then str_of tx else []) @ get_children_text cs)"
| "get_children_text [] = []"
| "get_children_text (c # cs) =
     (if local_name (el_tag c) \<noteq> ''del'' then get_element_text c else [])
     @ (if truthy (tail c) then str_of (tail c) else [])
     @ get_children_text cs"

section \<open>The traversal context\<close>

record annotation =
  ann_type :: string
  attributes :: "(string \<times> string) list option"
  ann_text :: "string option"
  alternative_text :: "string option"
  start_offset :: int
  end_offset :: int
  page :: "string option"
  details :: "(string option \<times> string option) option"

record page_rec =
  page_num :: string
  offset :: int

text \<open>
  The \<open>context\<close> dictionary. \<open>text_content\<close> is the list of one-character strings the
  code appends to, kept here as the string they join to.
\<close>

record ctxt =
  text_content :: string
  annotations :: "annotation list"
  pages :: "page_rec list"
  current_page :: "string option"
  global_offset :: int
  ctx_alternative_text :: "string option"
  last_char_is_whitespace :: bool

text \<open>The loop of \<open>add_text_to_context\<close> over the characters of the cleaned text.\<close>

fun add_chars :: "string \<Rightarrow> ctxt \<Rightarrow> ctxt" where
  "add_chars [] ctx = ctx"
| "add_chars (c # cs) ctx =
     add_chars cs
       (if isspace c then
          (if \<not> last_char_is_whitespace ctx then
             ctx\<lparr>text_content := text_content ctx @ [c],
                 global_offset := global_offset ctx + 1,
                 last_char_is_whitespace := True\<rparr>
           else ctx)
        else
          ctx\<lparr>text_content := text_content ctx @ [c],
              global_offset := global_offset ctx + 1,
              last_char_is_whitespace := False\<rparr>)"

definition add_text_to_context :: "string option \<Rightarrow> ctxt \<Rightarrow> ctxt" where
  "add_text_to_context t ctx =
     (if \<not> truthy t then ctx else add_chars (sub_ws_plus (str_of t)) ctx)"

text \<open>
  The end of \<open>process_element\<close>, reached by every branch that does not return early:
  an element whose name is not structural and that has attributes is annotated.
\<close>

definition structural :: "string list" where
  "structural = [''div'', ''p'', ''body'', ''text'', ''group'', ''lb'', ''pb'', ''choice'',
     ''subst'', ''del'', ''add'', ''abbr'', ''expan'']"

definition annotate_element :: "element \<Rightarrow> int \<Rightarrow> ctxt \<Rightarrow> ctxt" where
  "annotate_element element start ctx =
     (if local_name (el_tag element) \<notin> set structural \<and> attrib element \<noteq> [] then
        ctx\<lparr>annotations := annotations ctx @
          [\<lparr>ann_type = local_name (el_tag element),
            attributes = Some (attrib element),
            ann_text = Some (get_element_text element),
            alternative_text = None,
            start_offset = start,
            end_offset = global_offset ctx,
            page = current_page ctx,
            details = None\<rparr>]\<rparr>
      else ctx)"

definition process_pb :: "element \<Rightarrow> ctxt \<Rightarrow> ctxt" where
  "process_pb element ctx =
     (let page_num = map_of (attrib element) ''n'' in
      if truthy page_num then
        ctx\<lparr>current_page := page_num,
            pages := pages ctx @ [\<lparr>page_num = str_of page_num, offset = global_offset ctx\<rparr>]\<rparr>
      else ctx)"

definition process_lb :: "ctxt \<Rightarrow> ctxt" where
  "process_lb ctx =
     ctx\<lparr>text_content := text_content ctx @ [newline],
         global_offset := global_offset ctx + 1,
         last_char_is_whitespace := True\<rparr>"

definition process_choice :: "element \<Rightarrow> ctxt \<Rightarrow> ctxt" where
  "process_choice element ctx =
     (let start = global_offset ctx;
          abbr_text = map_option get_element_text (find_descendant ''abbr'' element);
          expan_text = map_option get_element_text (find_descendant ''expan'' element);
          chosen_text = (if truthy expan_text then expan_text else abbr_text);
          alt = (if chosen_text = expan_text then abbr_text else expan_text);
          ctx1 = (if truthy chosen_text then add_text_to_context chosen_text ctx else ctx)
      in ctx1\<lparr>annotations := annotations ctx1 @
           [\<lparr>ann_type = ''choice'',
             attributes = None,
             ann_text = chosen_text,
             alternative_text = alt,
             start_offset = start,
             end_offset = global_offset ctx1,
             page = current_page ctx1,
             details = None\<rparr>]\<rparr>)"

definition process_note :: "element \<Rightarrow> ctxt \<Rightarrow> ctxt" where
  "process_note element ctx =
     (let ctx1 = (if \<not> last_char_is_whitespace ctx then
                    ctx\<lparr>text_content := text_content ctx @ [space],
                        global_offset := global_offset ctx + 1,
                        last_char_is_whitespace := True\<rparr>
                  else ctx);
          note_text = get_element_text element;
          note_start = global_offset ctx1
      in ctx1\<lparr>annotations := annotations ctx1 @
           [\<lparr>ann_type = ''note'',
             attributes = None,
             ann_text = Some note_text,
             alternative_text = None,
             start_offset = note_start,
             end_offset = note_start + int (length note_text),
             page = current_page ctx1,
             details = None\<rparr>]\<rparr>)"

definition process_subst :: "element \<Rightarrow> ctxt \<Rightarrow> ctxt" where
  "process_subst element ctx =
     (let start = global_offset ctx;
          del_text = map_option get_element_text (find_descendant ''del'' element);
          add_text = map_option get_element_text (find_descendant ''add'' element);
          ctx1 = (if truthy add_text then add_text_to_context add_text ctx else ctx)
      in ctx1\<lparr>annotations := annotations ctx1 @
           [\<lparr>ann_type = ''substitution'',
             attributes = None,
             ann_text = add_text,
             alternative_text = del_text,
             start_offset = start,
             end_offset = global_offset ctx1,
             page = current_page ctx1,
             details = Some (del_text, add_text)\<rparr>]\<rparr>)"

text \<open>
  \<open>process_element(element, context)\<close>: the context after the call (the value the
  code returns is its \<open>global_offset\<close>). \<open>process_children\<close> is the loop over the
  children of the generic branch, each child followed by its tail text.
\<close>

fun process_element :: "element \<Rightarrow> ctxt \<Rightarrow> ctxt"
  and process_children :: "element list \<Rightarrow> ctxt \<Rightarrow> ctxt" where
  "process_element (Element t a tx tt cs) ctx =
     (let element = Element t a tx tt cs;
          element_name = local_name t;
          start = global_offset ctx
      in if element_name = ''pb'' then annotate_element element start (process_pb element ctx)
         else if element_name = ''lb'' then annotate_element element start (process_lb ctx)
         else if element_name = ''choice'' then process_choice element ctx
         else if element_name = ''note'' then process_note element ctx
         else if element_name = ''subst'' then process_subst element ctx
         else annotate_element element start
                (process_children cs
                   (if truthy tx then add_text_to_context tx ctx else ctx)))"
| "process_children [] ctx = ctx"
| "process_children (c # cs) ctx =
     process_children cs
       (let ctx1 = process_element c ctx
        in if truthy (tail c) then add_text_to_context (tail c) ctx1 else ctx1)"

section \<open>Document extraction\<close>

text \<open>The context \<open>extract_document_data\<close> starts the traversal with.\<close>

definition initial_context :: ctxt where
  "initial_context =
     \<lparr>text_content = [], annotations = [], pages = [], current_page = None,
      global_offset = 0, ctx_alternative_text = None, last_char_is_whitespace = True\<rparr>"

text \<open>
  The traversal of \<open>extract_document_data\<close> from the parsed root: the first
  \<open>tei:body\<close> below the root is processed, if there is one.
\<close>

definition walk_document :: "element \<Rightarrow> ctxt" where
  "walk_document root =
     (case find_descendant ''body'' root of
        None \<Rightarrow> initial_context
      | Some body \<Rightarrow> process_element body initial_context)"

text \<open>
  What \<open>extract_document_data\<close> returns; the metadata of the header, which no
  property below reads, is left out.
\<close>

record document =
  doc_file_path :: string
  doc_text :: string
  doc_annotations :: "annotation list"

definition document_of :: "string \<Rightarrow> element \<Rightarrow> document" where
  "document_of file_path root =
     (let ctx = walk_document root
      in \<lparr>doc_file_path = file_path, doc_text = text_content ctx,
          doc_annotations = annotations ctx\<rparr>)"

text \<open>
  \<open>ET.parse\<close> reads the file system and may raise; it is the parameter \<open>parse\<close>, which
  gives the root or the exception.
\<close>

definition extract_document_data :: "(string \<Rightarrow> 'e + element) \<Rightarrow> string \<Rightarrow> 'e + document" where
  "extract_document_data parse file_path =
     (case parse file_path of
        Inl e \<Rightarrow> Inl e
      | Inr root \<Rightarrow> Inr (document_of file_path root))"

text \<open>
  \<open>process_corpus\<close>: a document whose extraction raised is reported and left out of
  its directory's list.
\<close>

fun process_files :: "(string \<Rightarrow> 'e + element) \<Rightarrow> string list \<Rightarrow> document list" where
  "process_files parse [] = []"
| "process_files parse (file_path # file_paths) =
     (case extract_document_data parse file_path of
        Inr doc_data \<Rightarrow> doc_data # process_files parse file_paths
      | Inl e \<Rightarrow> process_files parse file_paths)"

definition process_corpus ::
  "(string \<Rightarrow> 'e + element) \<Rightarrow> (string \<times> string list) list \<Rightarrow> (string \<times> document list) list" where
  "process_corpus parse xml_files_by_subdir =
     map (\<lambda>(subdir_name, file_paths). (subdir_name, process_files parse file_paths))
       xml_files_by_subdir"

section \<open>Reconciliation in \<open>convert_to_lcp\<close>\<close>

text \<open>The annotation types \<open>convert_to_lcp\<close> writes; every other type is skipped.\<close>

definition annotation_types :: "string list" where
  "annotation_types =
     [''placeName'', ''choice'', ''origDate'', ''persName'', ''substitution'', ''date'']"

text \<open>
  A Python slice \<open>xs[i:j]\<close>: a negative index counts from the end, and both are
  clamped to the length.
\<close>

definition py_slice :: "'a list \<Rightarrow> int \<Rightarrow> int \<Rightarrow> 'a list" where
  "py_slice xs i j =
     (let n = int (length xs);
          i' = (if i < 0 then max 0 (i + n) else min i n);
          j' = (if j < 0 then max 0 (j + n) else min j n)
      in drop (nat i') (take (nat j') xs))"

text \<open>\<open>text.replace("\n", "")\<close>.\<close>

definition replace_newlines :: "string \<Rightarrow> string" where
  "replace_newlines t = filter (\<lambda>c. c \<noteq> newline) t"

text \<open>
  \<open>check_cond\<close> after both comparisons: the slice equals the stored text, or the slice
  at the same offsets of the text without its newlines does.
\<close>

definition check_cond :: "string \<Rightarrow> annotation \<Rightarrow> bool" where
  "check_cond t a =
     (Some (py_slice t (start_offset a) (end_offset a)) = ann_text a \<or>
      Some (py_slice (replace_newlines t) (start_offset a) (end_offset a)) = ann_text a)"

text \<open>
  The state of the loop over one document's annotations: the variable \<open>text\<close>, the
  counters of the annotation ids, and the rows written so far, each with its type, id
  and character range (the third column, an id of a lookup table, is left out).
\<close>

record lcp_state =
  text_var :: string
  annotation_counters :: "string \<Rightarrow> nat"
  rows :: "(string \<times> nat \<times> int \<times> int) list"

text \<open>
  One pass of the loop body. The branches for \<open>placeName\<close> and \<open>persName\<close> assign the
  annotation's text to the variable \<open>text\<close>, which the comparisons of the later
  annotations then read. An annotation reaches that assignment only after its text was
  found equal to a slice, so it is a string there.
\<close>

definition reconcile_step :: "annotation \<Rightarrow> lcp_state \<Rightarrow> lcp_state" where
  "reconcile_step a st =
     (if ann_type a \<notin> set annotation_types then st
      else if \<not> check_cond (text_var st) a then st
      else
        st\<lparr>text_var :=
              (if ann_type a = ''placeName'' \<or> ann_type a = ''persName''
               then str_of (ann_text a) else text_var st),
            annotation_counters :=
              (annotation_counters st)(ann_type a := annotation_counters st (ann_type a) + 1),
            rows := rows st @
              [(ann_type a, annotation_counters st (ann_type a), start_offset a, end_offset a)]\<rparr>)"

fun reconcile :: "annotation list \<Rightarrow> lcp_state \<Rightarrow> lcp_state" where
  "reconcile [] st = st"
| "reconcile (a # as) st = reconcile as (reconcile_step a st)"

text \<open>The state in which the loop starts on a document with the given text.\<close>

definition start_state :: "string \<Rightarrow> (string \<Rightarrow> nat) \<Rightarrow> lcp_state" where
  "start_state t counters = \<lparr>text_var = t, annotation_counters = counters, rows = []\<rparr>"

definition row_of :: "annotation \<Rightarrow> string \<times> int \<times> int" where
  "row_of a = (ann_type a, start_offset a, end_offset a)"

definition written :: "lcp_state \<Rightarrow> (string \<times> int \<times> int) list" where
  "written st = map (\<lambda>(ty, n, s, e). (ty, s, e)) (rows st)"

section \<open>The specification's wording, for comparison\<close>

text \<open>
  The canonical text as the specification words it: the parts are concatenated, every
  run of whitespace becomes one space, and the ends are trimmed.
\<close>

definition normalize_spec :: "string \<Rightarrow> string" where
  "normalize_spec s = strip (sub_ws_plus s)"

fun canonical_text_spec :: "element \<Rightarrow> string"
  and canonical_children_spec :: "element list \<Rightarrow> string" where
  "canonical_text_spec (Element t a tx tt cs) =
     normalize_spec (str_of tx @ canonical_children_spec cs)"
| "canonical_children_spec [] = []"
| "canonical_children_spec (c # cs) =
     (if local_name (el_tag c) = ''del'' then [] else canonical_text_spec c)
     @ str_of (tail c) @ canonical_children_spec cs"

text \<open>Every whitespace character replaced by a space.\<close>

definition spaced :: "string \<Rightarrow> string" where
  "spaced s = map (\<lambda>c. if isspace c then space else c) s"

text \<open>
  The fallback as the specification words it: the slice and the stored text are
  compared with the newlines removed from both.
\<close>

definition fallback_spec :: "string \<Rightarrow> annotation \<Rightarrow> bool" where
  "fallback_spec t a =
     (map_option replace_newlines (ann_text a) =
      Some (replace_newlines (py_slice t (start_offset a) (end_offset a))))"

section \<open>Invariants of the traversal\<close>

text \<open>The position counter equals the number of characters appended so far.\<close>

definition offset_ok :: "ctxt \<Rightarrow> bool" where
  "offset_ok ctx = (global_offset ctx = int (length (text_content ctx)))"

text \<open>A cleared whitespace flag means the buffer ends with a character that is not whitespace.\<close>

definition flag_ok :: "ctxt \<Rightarrow> bool" where
  "flag_ok ctx =
     (\<not> last_char_is_whitespace ctx \<longrightarrow>
        text_content ctx \<noteq> [] \<and> \<not> isspace (last (text_content ctx)))"

text \<open>Of two adjacent whitespace characters the second is a newline.\<close>

definition ws_law :: "string \<Rightarrow> bool" where
  "ws_law t =
     (\<forall>i. Suc i < length t \<and> isspace (t ! i) \<and> isspace (t ! Suc i) \<longrightarrow> t ! Suc i = newline)"

text \<open>Every whitespace character is a space or a newline.\<close>

definition ws_chars :: "string \<Rightarrow> bool" where
  "ws_chars t = (\<forall>c \<in> set t. isspace c \<longrightarrow> c = space \<or> c = newline)"

definition tgood :: "ctxt \<Rightarrow> bool" where
  "tgood ctx =
     (offset_ok ctx \<and> flag_ok ctx \<and> ws_law (text_content ctx) \<and> ws_chars (text_content ctx))"

definition in_bounds :: "int \<Rightarrow> annotation \<Rightarrow> bool" where
  "in_bounds n a =
     (0 \<le> start_offset a \<and> start_offset a \<le> end_offset a \<and> end_offset a \<le> n)"

definition bounded_anns :: "ctxt \<Rightarrow> bool" where
  "bounded_anns ctx =
     (\<forall>a \<in> set (annotations ctx).
        ann_type a \<noteq> ''note'' \<longrightarrow> in_bounds (global_offset ctx) a)"

text \<open>
  One context extends another: the counter is right, the text was only appended to, and
  annotations within the bounds stayed so.
\<close>

definition ext :: "ctxt \<Rightarrow> ctxt \<Rightarrow> bool" where
  "ext ctx ctx' =
     (offset_ok ctx' \<and> prefix (text_content ctx) (text_content ctx') \<and>
      (bounded_anns ctx \<longrightarrow> bounded_anns ctx'))"

section \<open>Auxiliary predicates and functions\<close>

text \<open>The buffer holds no newline.\<close>

definition nl_free :: "ctxt \<Rightarrow> bool" where
  "nl_free ctx = (newline \<notin> set (text_content ctx))"

text \<open>
  The element with the content of every \<open>del\<close> child removed, at any depth below
  elements that are not themselves such children; the tail text of such a child stays.
\<close>

fun erase_del :: "element \<Rightarrow> element"
  and erase_del_list :: "element list \<Rightarrow> element list" where
  "erase_del (Element t a tx tt cs) = Element t a tx tt (erase_del_list cs)"
| "erase_del_list [] = []"
| "erase_del_list (c # cs) =
     (if local_name (el_tag c) = ''del'' then Element (el_tag c) [] None (tail c) []
      else erase_del c) # erase_del_list cs"

text \<open>Whitespace removed from the end, the second half of \<open>strip\<close>.\<close>

definition rstrip :: "string \<Rightarrow> string" where
  "rstrip s = rev (dropWhile isspace (rev s))"

text \<open>No two whitespace characters stand next to each other.\<close>

fun no_adjacent_ws :: "string \<Rightarrow> bool" where
  "no_adjacent_ws (a # b # cs) = (\<not> (isspace a \<and> isspace b) \<and> no_adjacent_ws (b # cs))"
| "no_adjacent_ws cs = True"

text \<open>The string neither starts nor ends with a whitespace character.\<close>

definition trimmed :: "string \<Rightarrow> bool" where
  "trimmed s = (s = [] \<or> (\<not> isspace (hd s) \<and> \<not> isspace (last s)))"

text \<open>The annotation is of a type that is written and passes \<open>check_cond\<close> on the text.\<close>

definition handled :: "string \<Rightarrow> annotation \<Rightarrow> bool" where
  "handled t a = (ann_type a \<in> set annotation_types \<and> check_cond t a)"

text \<open>The counters of the annotation ids as \<open>convert_to_lcp\<close> initialises them.\<close>

definition counters1 :: "string \<Rightarrow> nat" where
  "counters1 = (\<lambda>ty. 1)"


section \<open>Example documents\<close>

text \<open>A document whose \<open>body\<close> is the given element.\<close>

definition tei_doc :: "element \<Rightarrow> element" where
  "tei_doc body =
     Element (tei ''TEI'') [] None None [Element (tei ''text'') [] None None [body]]"

definition body_of :: "string option \<Rightarrow> element list \<Rightarrow> element" where
  "body_of tx cs = tei_doc (Element (tei ''body'') [] tx None cs)"

text \<open>\<open>foo<lb/>bar\<close>\<close>

definition lb_example :: element where
  "lb_example = body_of (Some ''foo'') [Element (tei ''lb'') [] None (Some ''bar'') []]"

text \<open>\<open>Treaty of <choice><abbr>Jan.</abbr><expan>January</expan></choice> 1291\<close>\<close>

definition choice_example :: element where
  "choice_example = body_of (Some ''Treaty of '')
     [Element (tei ''choice'') [] None (Some '' 1291'')
        [Element (tei ''abbr'') [] (Some ''Jan.'') None [],
         Element (tei ''expan'') [] (Some ''January'') None []]]"


text \<open>\<open>word<note>comment</note>next\<close>\<close>

definition note_example :: element where
  "note_example = body_of (Some ''word'')
     [Element (tei ''note'') [] (Some ''comment'') (Some ''next'') []]"

text \<open>\<open>Hans <persName ref="per1">Muster</persName> von<lb/>Bern\<close>\<close>

definition persname_example :: element where
  "persname_example = body_of (Some ''Hans '')
     [Element (tei ''persName'') [(''ref'', ''per1'')] (Some ''Muster'') (Some '' von'') [],
      Element (tei ''lb'') [] None (Some ''Bern'') []]"

text \<open>\<open>foo <lb/> bar\<close>: a line break after a space.\<close>

definition lb_space_example :: element where
  "lb_space_example = body_of (Some ''foo '') [Element (tei ''lb'') [] None (Some '' bar'') []]"

text \<open>A tab, a carriage return and a newline in the source, and a tab after a line break.\<close>

definition tab_example :: element where
  "tab_example = body_of (Some [CHR ''a'', CHR 0x09, CHR 0x0D, newline, CHR ''b''])
      [Element (tei ''lb'') [] None (Some [CHR 0x09, CHR ''c'']) []]"

text \<open>The \<open>choice\<close> element of the example above, on its own.\<close>

definition choice_node :: element where
  "choice_node = Element (tei ''choice'') [] None (Some '' 1291'')
        [Element (tei ''abbr'') [] (Some ''Jan.'') None [],
         Element (tei ''expan'') [] (Some ''January'') None []]"


text \<open>The \<open>note\<close> element of the example above, on its own.\<close>

definition note_node :: element where
  "note_node = Element (tei ''note'') [] (Some ''comment'') (Some ''next'') []"

text \<open>A context whose buffer ends with a word, on page 3.\<close>

definition word_context :: ctxt where
  "word_context =
     \<lparr>text_content = ''word'', annotations = [], pages = [], current_page = Some ''3'',
      global_offset = 4, ctx_alternative_text = None, last_char_is_whitespace = False\<rparr>"

text \<open>A name broken over two lines of the source: \<open>Hans\nMuster\<close>.\<close>

definition newline_example :: element where
  "newline_example =
     Element (tei ''persName'') [(''ref'', ''per1'')] (Some (''Hans'' @ [newline] @ ''Muster'')) None []"

text \<open>\<open><persName ref="per1">Hans<lb/>Muster</persName> von Bern\<close>\<close>

definition linebreak_name_example :: element where
  "linebreak_name_example = body_of None
     [Element (tei ''persName'') [(''ref'', ''per1'')] (Some ''Hans'') (Some '' von Bern'')
        [Element (tei ''lb'') [] None (Some ''Muster'') []]]"

text \<open>\<open>Zeuge <persName ref="per1">Hans<lb/>Muster</persName>\<close>\<close>

definition linebreak_name_end_example :: element where
  "linebreak_name_end_example = body_of (Some ''Zeuge '')
     [Element (tei ''persName'') [(''ref'', ''per1'')] (Some ''Hans'') None
        [Element (tei ''lb'') [] None (Some ''Muster'') []]]"

text \<open>\<open><placeName ref="loc1">Bern</placeName> und <persName ref="per1">Hans</persName>\<close>\<close>

definition two_names_example :: element where
  "two_names_example = body_of None
     [Element (tei ''placeName'') [(''ref'', ''loc1'')] (Some ''Bern'') (Some '' und '') [],
      Element (tei ''persName'') [(''ref'', ''per1'')] (Some ''Hans'') None []]"

text \<open>\<open><choice><abbr>Jan.</abbr></choice>\<close>: the expansion is missing.\<close>

definition choice_no_expan :: element where
  "choice_no_expan = Element (tei ''choice'') [] None None
     [Element (tei ''abbr'') [] (Some ''Jan.'') None []]"

text \<open>\<open><choice><abbr>Jan.</abbr><expan/></choice>\<close>: the expansion is empty.\<close>

definition choice_empty_expan :: element where
  "choice_empty_expan = Element (tei ''choice'') [] None None
     [Element (tei ''abbr'') [] (Some ''Jan.'') None [],
      Element (tei ''expan'') [] None None []]"

text \<open>\<open><subst><del>teh</del></subst>\<close>: the insertion is missing.\<close>

definition subst_no_add :: element where
  "subst_no_add = Element (tei ''subst'') [] None None
     [Element (tei ''del'') [] (Some ''teh'') None []]"

text \<open>\<open><subst><del>teh</del><add/></subst>\<close>: the insertion is empty.\<close>

definition subst_empty_add :: element where
  "subst_empty_add = Element (tei ''subst'') [] None None
     [Element (tei ''del'') [] (Some ''teh'') None [],
      Element (tei ''add'') [] None None []]"

text \<open>A parser that fails on one file and gives the line break example for every other.\<close>

definition parse_example :: "string \<Rightarrow> string + element" where
  "parse_example file_path =
     (if file_path = ''bad.xml'' then Inl ''not well-formed'' else Inr lb_example)"


text \<open>A paragraph with a space at each end, a tab alone and a run of two newlines.\<close>

definition mixed_whitespace_example :: element where
  "mixed_whitespace_example =
     Element (tei ''p'') []
       (Some ([space] @ ''a'' @ [CHR 0x09] @ ''b'' @ [newline, newline] @ ''c'' @ [space]))
       None []"

section \<open>The traversal keeps its invariants\<close>

lemma isspace_space [simp]: "isspace space" by (simp add: isspace_def)

lemma isspace_newline [simp]: "isspace newline" by (simp add: isspace_def)

lemma ws_law_Nil [simp]: "ws_law []" by (simp add: ws_law_def)

lemma ws_law_snoc:
  "ws_law (t @ [c]) \<longleftrightarrow> ws_law t \<and> (t \<noteq> [] \<and> isspace (last t) \<and> isspace c \<longrightarrow> c = newline)"
proof (cases "t = []")
  case True
  then show ?thesis by (simp add: ws_law_def)
next
  case False
  show ?thesis
  proof
    assume L: "ws_law (t @ [c])"
    have "ws_law t"
      unfolding ws_law_def
    proof (intro allI impI)
      fix i assume H: "Suc i < length t \<and> isspace (t ! i) \<and> isspace (t ! Suc i)"
      with L have "(t @ [c]) ! Suc i = newline"
        unfolding ws_law_def by (metis Suc_lessD length_append_singleton less_SucI nth_append)
      with H show "t ! Suc i = newline" by (simp add: nth_append)
    qed
    moreover have "isspace (last t) \<and> isspace c \<longrightarrow> c = newline"
    proof
      assume H: "isspace (last t) \<and> isspace c"
      from False obtain n where n: "length t = Suc n" by (cases t) auto
      have "(t @ [c]) ! n = last t" using False n by (simp add: nth_append last_conv_nth)
      moreover have "(t @ [c]) ! Suc n = c" using n by (simp add: nth_append)
      ultimately show "c = newline" using L H n unfolding ws_law_def
        by (metis length_append_singleton lessI)
    qed
    ultimately show "ws_law t \<and> (t \<noteq> [] \<and> isspace (last t) \<and> isspace c \<longrightarrow> c = newline)" by simp
  next
    assume R: "ws_law t \<and> (t \<noteq> [] \<and> isspace (last t) \<and> isspace c \<longrightarrow> c = newline)"
    show "ws_law (t @ [c])"
      unfolding ws_law_def
    proof (intro allI impI)
      fix i assume H: "Suc i < length (t @ [c]) \<and> isspace ((t @ [c]) ! i) \<and> isspace ((t @ [c]) ! Suc i)"
      show "(t @ [c]) ! Suc i = newline"
      proof (cases "Suc i < length t")
        case True
        with H R show ?thesis unfolding ws_law_def by (simp add: nth_append)
      next
        case F: False
        with H have i: "Suc i = length t" by simp
        then have "i = length t - 1" by simp
        then have "(t @ [c]) ! i = last t" using False by (simp add: nth_append last_conv_nth)
        moreover have "(t @ [c]) ! Suc i = c" using i by (simp add: nth_append)
        ultimately show ?thesis using H R False by simp
      qed
    qed
  qed
qed

lemma ws_chars_snoc: "ws_chars (t @ [c]) \<longleftrightarrow> ws_chars t \<and> (isspace c \<longrightarrow> c = space \<or> c = newline)"
  by (auto simp: ws_chars_def)

lemma add_chars_tgood:
  "tgood ctx \<Longrightarrow> \<forall>c \<in> set s. isspace c \<longrightarrow> c = space \<Longrightarrow> tgood (add_chars s ctx)"
proof (induction s arbitrary: ctx)
  case Nil
  then show ?case by simp
next
  case (Cons c cs)
  have "tgood (if isspace c then
          (if \<not> last_char_is_whitespace ctx then
             ctx\<lparr>text_content := text_content ctx @ [c],
                 global_offset := global_offset ctx + 1,
                 last_char_is_whitespace := True\<rparr>
           else ctx)
        else
          ctx\<lparr>text_content := text_content ctx @ [c],
              global_offset := global_offset ctx + 1,
              last_char_is_whitespace := False\<rparr>)"
    using Cons.prems
    by (auto simp: tgood_def offset_ok_def flag_ok_def ws_law_snoc ws_chars_snoc)
  with Cons show ?case by simp
qed

lemma sub_ws_plus_chars: "c \<in> set (sub_ws_plus s) \<Longrightarrow> isspace c \<Longrightarrow> c = space"
  by (induction s rule: sub_ws_plus.induct) (auto split: if_splits dest: set_dropWhileD)

lemma add_text_tgood: "tgood ctx \<Longrightarrow> tgood (add_text_to_context t ctx)"
  by (simp add: add_text_to_context_def add_chars_tgood sub_ws_plus_chars)

lemma tgood_upd [simp]:
  "tgood (ctx\<lparr>annotations := x\<rparr>) = tgood ctx"
  "tgood (ctx\<lparr>pages := y\<rparr>) = tgood ctx"
  "tgood (ctx\<lparr>current_page := z\<rparr>) = tgood ctx"
  by (simp_all add: tgood_def offset_ok_def flag_ok_def)

lemma annotate_element_tgood: "tgood ctx \<Longrightarrow> tgood (annotate_element e s ctx)"
  by (simp add: annotate_element_def)

lemma process_pb_tgood: "tgood ctx \<Longrightarrow> tgood (process_pb e ctx)"
  by (simp add: process_pb_def Let_def)

lemma process_lb_tgood: "tgood ctx \<Longrightarrow> tgood (process_lb ctx)"
  by (simp add: process_lb_def tgood_def offset_ok_def flag_ok_def ws_law_snoc ws_chars_snoc)

lemma process_choice_tgood: "tgood ctx \<Longrightarrow> tgood (process_choice e ctx)"
  by (simp add: process_choice_def Let_def add_text_tgood)

lemma process_subst_tgood: "tgood ctx \<Longrightarrow> tgood (process_subst e ctx)"
  by (simp add: process_subst_def Let_def add_text_tgood)

lemma process_note_tgood: "tgood ctx \<Longrightarrow> tgood (process_note e ctx)"
  by (auto simp: process_note_def Let_def tgood_def offset_ok_def flag_ok_def ws_law_snoc ws_chars_snoc)

lemma process_element_tgood:
  "tgood ctx \<Longrightarrow> tgood (process_element el ctx)"
  "tgood ctx \<Longrightarrow> tgood (process_children els ctx)"
proof (induction el ctx and els ctx rule: process_element_process_children.induct)
  case (1 t a tx tt cs ctx)
  then show ?case
    by (simp add: Let_def annotate_element_tgood process_pb_tgood process_lb_tgood
        process_choice_tgood process_subst_tgood process_note_tgood add_text_tgood)
next
  case (2 ctx)
  then show ?case by simp
next
  case (3 c cs ctx)
  then show ?case by (simp add: Let_def add_text_tgood)
qed

lemma tgood_initial: "tgood initial_context"
  by (simp add: tgood_def initial_context_def offset_ok_def flag_ok_def ws_chars_def)

lemma walk_document_tgood: "tgood (walk_document root)"
  by (simp add: walk_document_def tgood_initial process_element_tgood split: option.split)

lemma ext_refl: "offset_ok ctx \<Longrightarrow> ext ctx ctx"
  by (simp add: ext_def)

lemma ext_trans: "ext a b \<Longrightarrow> ext b c \<Longrightarrow> ext a c"
  by (auto simp: ext_def)

lemma ext_offset_ok: "ext a b \<Longrightarrow> offset_ok b"
  by (simp add: ext_def)

lemma ext_offset_le: "offset_ok a \<Longrightarrow> ext a b \<Longrightarrow> global_offset a \<le> global_offset b"
  by (auto simp: ext_def offset_ok_def dest: prefix_length_le)

lemma in_bounds_mono: "in_bounds n a \<Longrightarrow> n \<le> m \<Longrightarrow> in_bounds m a"
  by (simp add: in_bounds_def)

lemma append_char_ext:
  "offset_ok ctx \<Longrightarrow> ext ctx (ctx\<lparr>text_content := text_content ctx @ [c],
      global_offset := global_offset ctx + 1, last_char_is_whitespace := b\<rparr>)"
  by (auto simp: ext_def bounded_anns_def offset_ok_def in_bounds_def)

lemma add_chars_ext: "offset_ok ctx \<Longrightarrow> ext ctx (add_chars s ctx)"
proof (induction s arbitrary: ctx)
  case Nil
  then show ?case by (simp add: ext_refl)
next
  case (Cons c cs)
  let ?c1 = "(if isspace c then
          (if \<not> last_char_is_whitespace ctx then
             ctx\<lparr>text_content := text_content ctx @ [c],
                 global_offset := global_offset ctx + 1,
                 last_char_is_whitespace := True\<rparr>
           else ctx)
        else
          ctx\<lparr>text_content := text_content ctx @ [c],
              global_offset := global_offset ctx + 1,
              last_char_is_whitespace := False\<rparr>)"
  have 1: "ext ctx ?c1"
    using Cons.prems by (simp add: append_char_ext ext_refl)
  then have "ext ?c1 (add_chars cs ?c1)"
    by (intro Cons.IH ext_offset_ok)
  with 1 have "ext ctx (add_chars cs ?c1)" by (rule ext_trans)
  then show ?case by simp
qed

lemma add_text_ext: "offset_ok ctx \<Longrightarrow> ext ctx (add_text_to_context t ctx)"
  by (simp add: add_text_to_context_def add_chars_ext ext_refl)

lemma annotate_element_ext:
  "offset_ok ctx \<Longrightarrow> 0 \<le> s \<Longrightarrow> s \<le> global_offset ctx \<Longrightarrow> ext ctx (annotate_element e s ctx)"
  by (auto simp: annotate_element_def ext_def bounded_anns_def offset_ok_def in_bounds_def)

lemma process_pb_ext: "offset_ok ctx \<Longrightarrow> ext ctx (process_pb e ctx)"
  by (auto simp: process_pb_def Let_def ext_def bounded_anns_def offset_ok_def)

lemma process_lb_ext: "offset_ok ctx \<Longrightarrow> ext ctx (process_lb ctx)"
  unfolding process_lb_def by (rule append_char_ext)

lemma record_annotation_ext:
  assumes "offset_ok ctx" "ext ctx ctx1"
    and "ann_type a \<noteq> ''note'' \<Longrightarrow> start_offset a = global_offset ctx \<and> end_offset a = global_offset ctx1"
  shows "ext ctx (ctx1\<lparr>annotations := annotations ctx1 @ [a]\<rparr>)"
proof -
  have le: "global_offset ctx \<le> global_offset ctx1"
    using assms(1,2) by (rule ext_offset_le)
  have "0 \<le> global_offset ctx" using assms(1) by (simp add: offset_ok_def)
  with le assms show ?thesis
    by (auto simp: ext_def bounded_anns_def offset_ok_def in_bounds_def)
qed

lemma process_choice_ext: "offset_ok ctx \<Longrightarrow> ext ctx (process_choice e ctx)"
  unfolding process_choice_def Let_def
  by (rule record_annotation_ext) (simp_all add: add_text_ext ext_refl)

lemma process_subst_ext: "offset_ok ctx \<Longrightarrow> ext ctx (process_subst e ctx)"
  unfolding process_subst_def Let_def
  by (rule record_annotation_ext) (simp_all add: add_text_ext ext_refl)

lemma process_note_ext: "offset_ok ctx \<Longrightarrow> ext ctx (process_note e ctx)"
  unfolding process_note_def Let_def
  by (rule record_annotation_ext) (simp_all add: append_char_ext ext_refl)

lemma process_element_ext:
  "offset_ok ctx \<Longrightarrow> ext ctx (process_element el ctx)"
  "offset_ok ctx \<Longrightarrow> ext ctx (process_children els ctx)"
proof (induction el ctx and els ctx rule: process_element_process_children.induct)
  case (1 t a tx tt cs ctx)
  let ?el = "Element t a tx tt cs"
  let ?c0 = "if truthy tx then add_text_to_context tx ctx else ctx"
  have pos: "0 \<le> global_offset ctx" using "1.prems" by (simp add: offset_ok_def)
  have ann: "ext ctx (annotate_element ?el (global_offset ctx) c)" if "ext ctx c" for c
  proof -
    have "global_offset ctx \<le> global_offset c" using "1.prems" that by (rule ext_offset_le)
    then have "ext c (annotate_element ?el (global_offset ctx) c)"
      using that pos by (intro annotate_element_ext ext_offset_ok)
    with that show ?thesis by (rule ext_trans)
  qed
  have c0: "ext ctx ?c0" using "1.prems" by (simp add: add_text_ext ext_refl)
  show ?case
  proof (cases "local_name t \<in> {''pb'', ''lb'', ''choice'', ''note'', ''subst''}")
    case True
    then show ?thesis
      using "1.prems" ann[OF process_pb_ext] ann[OF process_lb_ext]
      by (auto simp: Let_def process_choice_ext process_subst_ext process_note_ext)
  next
    case False
    then have "ext ?c0 (process_children cs ?c0)"
      using c0 by (intro "1.IH"[OF refl refl refl] ext_offset_ok) auto
    with c0 have "ext ctx (process_children cs ?c0)" by (rule ext_trans)
    then have "ext ctx (annotate_element ?el (global_offset ctx) (process_children cs ?c0))"
      by (rule ann)
    with False show ?thesis by (simp add: Let_def)
  qed
next
  case (2 ctx)
  then show ?case by (simp add: ext_refl)
next
  case (3 c cs ctx)
  let ?c1 = "process_element c ctx"
  let ?c2 = "if truthy (tail c) then add_text_to_context (tail c) ?c1 else ?c1"
  have 1: "ext ctx ?c1" using 3 by simp
  then have "ext ?c1 ?c2" by (simp add: add_text_ext ext_refl ext_offset_ok)
  with 1 have 2: "ext ctx ?c2" by (rule ext_trans)
  then have "ext ?c2 (process_children cs ?c2)"
    using "3.IH"(2) by (simp add: Let_def ext_offset_ok)
  with 2 have "ext ctx (process_children cs ?c2)" by (rule ext_trans)
  then show ?case by (simp add: Let_def)
qed

section \<open>Offsets of the annotations\<close>

lemma document_of_simps:
  "doc_text (document_of f root) = text_content (walk_document root)"
  "doc_annotations (document_of f root) = annotations (walk_document root)"
  by (simp_all add: document_of_def Let_def)

lemma walk_document_ext: "ext initial_context (walk_document root)"
proof -
  have "offset_ok initial_context" by (simp add: offset_ok_def initial_context_def)
  then show ?thesis
    by (simp add: walk_document_def ext_refl process_element_ext split: option.split)
qed

text \<open>
  Claim C1. Every annotation of an extracted document that is not a note has
  \<open>0 \<le> start_offset \<le> end_offset \<le> len(text)\<close>, for the text the document ends
  with. The position counter equals the number of characters in the buffer at the end
  of the traversal, and every call of \<open>process_element\<close> and of
  \<open>add_text_to_context\<close> that starts with the counter equal to the number of
  characters ends so, only appends to the buffer and never decreases the counter.
\<close>

theorem offsets_in_bounds:
  "(\<forall>a \<in> set (doc_annotations (document_of f root)).
      ann_type a \<noteq> ''note'' \<longrightarrow>
        0 \<le> start_offset a \<and> start_offset a \<le> end_offset a \<and>
        end_offset a \<le> int (length (doc_text (document_of f root)))) \<and>
   global_offset (walk_document root) = int (length (text_content (walk_document root))) \<and>
   (global_offset ctx = int (length (text_content ctx)) \<longrightarrow>
      global_offset (process_element el ctx) = int (length (text_content (process_element el ctx))) \<and>
      global_offset ctx \<le> global_offset (process_element el ctx) \<and>
      prefix (text_content ctx) (text_content (process_element el ctx)) \<and>
      global_offset (add_text_to_context t ctx) =
        int (length (text_content (add_text_to_context t ctx))) \<and>
      global_offset ctx \<le> global_offset (add_text_to_context t ctx) \<and>
      prefix (text_content ctx) (text_content (add_text_to_context t ctx)))"
proof (intro conjI impI ballI)
  have w: "ext initial_context (walk_document root)" by (rule walk_document_ext)
  have "bounded_anns initial_context" by (simp add: bounded_anns_def initial_context_def)
  with w have b: "bounded_anns (walk_document root)" by (simp add: ext_def)
  from w show o: "global_offset (walk_document root) = int (length (text_content (walk_document root)))"
    by (simp add: ext_def offset_ok_def)
  fix a assume "a \<in> set (doc_annotations (document_of f root))" "ann_type a \<noteq> ''note''"
  with b have "in_bounds (global_offset (walk_document root)) a"
    by (simp add: bounded_anns_def document_of_simps)
  with o show "0 \<le> start_offset a" "start_offset a \<le> end_offset a"
    "end_offset a \<le> int (length (doc_text (document_of f root)))"
    by (simp_all add: in_bounds_def document_of_simps)
next
  assume "global_offset ctx = int (length (text_content ctx))"
  then have ok: "offset_ok ctx" by (simp add: offset_ok_def)
  have e: "ext ctx (process_element el ctx)" using ok by (rule process_element_ext)
  have t: "ext ctx (add_text_to_context t ctx)" using ok by (rule add_text_ext)
  from e show "global_offset (process_element el ctx) = int (length (text_content (process_element el ctx)))"
    by (simp add: ext_def offset_ok_def)
  from e show "prefix (text_content ctx) (text_content (process_element el ctx))"
    by (simp add: ext_def)
  from ok e show "global_offset ctx \<le> global_offset (process_element el ctx)"
    by (rule ext_offset_le)
  from t show "global_offset (add_text_to_context t ctx) = int (length (text_content (add_text_to_context t ctx)))"
    by (simp add: ext_def offset_ok_def)
  from t show "prefix (text_content ctx) (text_content (add_text_to_context t ctx))"
    by (simp add: ext_def)
  from ok t show "global_offset ctx \<le> global_offset (add_text_to_context t ctx)"
    by (rule ext_offset_le)
qed

theorem offsets_in_bounds_witness:
  "hd (doc_annotations (document_of ''f.xml'' persname_example)) \<in>
      set (doc_annotations (document_of ''f.xml'' persname_example)) \<and>
   ann_type (hd (doc_annotations (document_of ''f.xml'' persname_example))) \<noteq> ''note'' \<and>
   start_offset (hd (doc_annotations (document_of ''f.xml'' persname_example))) = 5 \<and>
   end_offset (hd (doc_annotations (document_of ''f.xml'' persname_example))) = 11 \<and>
   length (doc_text (document_of ''f.xml'' persname_example)) = 20 \<and>
   global_offset initial_context = int (length (text_content initial_context)) \<and>
   global_offset (process_element persname_example initial_context) =
     int (length (text_content (process_element persname_example initial_context)))"
proof -
  have ev:
    "doc_annotations (document_of ''f.xml'' persname_example) =
       [\<lparr>ann_type = ''persName'', attributes = Some [(''ref'', ''per1'')],
         ann_text = Some ''Muster'', alternative_text = None,
         start_offset = 5, end_offset = 11, page = None, details = None\<rparr>]"
    "doc_text (document_of ''f.xml'' persname_example) = ''Hans Muster von'' @ [newline] @ ''Bern''"
    by code_simp+
  show ?thesis
    using offsets_in_bounds [of "''f.xml''" persname_example initial_context persname_example None] ev
    by (simp add: initial_context_def)
qed

section \<open>Newlines come from line breaks only\<close>

lemma add_chars_set:
  "set (text_content (add_chars s ctx)) \<subseteq> set (text_content ctx) \<union> set s"
proof (induction s arbitrary: ctx)
  case Nil
  then show ?case by simp
next
  case (Cons c cs)
  let ?c1 = "(if isspace c then
          (if \<not> last_char_is_whitespace ctx then
             ctx\<lparr>text_content := text_content ctx @ [c],
                 global_offset := global_offset ctx + 1,
                 last_char_is_whitespace := True\<rparr>
           else ctx)
        else
          ctx\<lparr>text_content := text_content ctx @ [c],
              global_offset := global_offset ctx + 1,
              last_char_is_whitespace := False\<rparr>)"
  have "set (text_content ?c1) \<subseteq> set (text_content ctx) \<union> {c}" by auto
  moreover have "set (text_content (add_chars cs ?c1)) \<subseteq> set (text_content ?c1) \<union> set cs"
    by (rule Cons.IH)
  ultimately have "set (text_content (add_chars cs ?c1)) \<subseteq> set (text_content ctx) \<union> set (c # cs)"
    by auto
  then show ?case by simp
qed

lemma sub_ws_plus_no_newline: "newline \<notin> set (sub_ws_plus s)"
  using sub_ws_plus_chars [of newline s] by auto

lemma nl_free_upd [simp]:
  "nl_free (ctx\<lparr>annotations := x\<rparr>) = nl_free ctx"
  "nl_free (ctx\<lparr>pages := y\<rparr>) = nl_free ctx"
  "nl_free (ctx\<lparr>current_page := z\<rparr>) = nl_free ctx"
  by (simp_all add: nl_free_def)

lemma add_text_nl_free: "nl_free ctx \<Longrightarrow> nl_free (add_text_to_context t ctx)"
  using add_chars_set [of "sub_ws_plus (str_of t)" ctx] sub_ws_plus_no_newline [of "str_of t"]
  by (auto simp: add_text_to_context_def nl_free_def)

lemma process_element_nl_free:
  "nl_free ctx \<Longrightarrow> \<forall>e \<in> set (iter el). local_name (el_tag e) \<noteq> ''lb'' \<Longrightarrow>
     nl_free (process_element el ctx)"
  "nl_free ctx \<Longrightarrow> \<forall>e \<in> set (iter_list els). local_name (el_tag e) \<noteq> ''lb'' \<Longrightarrow>
     nl_free (process_children els ctx)"
proof (induction el ctx and els ctx rule: process_element_process_children.induct)
  case (1 t a tx tt cs ctx)
  then show ?case
    by (auto simp: Let_def annotate_element_def process_pb_def process_choice_def
        process_subst_def process_note_def add_text_nl_free)
       (auto simp: nl_free_def)
next
  case (2 ctx)
  then show ?case by simp
next
  case (3 c cs ctx)
  then show ?case by (simp add: Let_def add_text_nl_free)
qed

lemma iter_closed:
  "e \<in> set (iter x) \<Longrightarrow> set (iter e) \<subseteq> set (iter x)"
  "e \<in> set (iter_list xs) \<Longrightarrow> set (iter e) \<subseteq> set (iter_list xs)"
  by (induction x and xs rule: iter_iter_list.induct) auto

lemma find_descendant_iter:
  "find_descendant n el = Some b \<Longrightarrow> set (iter b) \<subseteq> set (iter el)"
proof -
  assume "find_descendant n el = Some b"
  then have "b \<in> set (iter_list (children el))"
    by (auto simp: find_descendant_def find_Some_iff)
  then have "set (iter b) \<subseteq> set (iter_list (children el))" by (rule iter_closed)
  then show ?thesis by (cases el) auto
qed

lemma walk_document_nl_free:
  "\<forall>e \<in> set (iter root). local_name (el_tag e) \<noteq> ''lb'' \<Longrightarrow> nl_free (walk_document root)"
proof -
  assume h: "\<forall>e \<in> set (iter root). local_name (el_tag e) \<noteq> ''lb''"
  have i: "nl_free initial_context" by (simp add: nl_free_def initial_context_def)
  show ?thesis
  proof (cases "find_descendant ''body'' root")
    case None
    then show ?thesis using i by (simp add: walk_document_def)
  next
    case (Some b)
    then have "\<forall>e \<in> set (iter b). local_name (el_tag e) \<noteq> ''lb''"
      using h find_descendant_iter by blast
    with i Some show ?thesis by (simp add: walk_document_def process_element_nl_free)
  qed
qed

section \<open>Whitespace of the produced text\<close>

text \<open>
  Claim C2. In the text of an extracted document, two whitespace characters stand next
  to each other only where the second is a newline, which only the handling of a line
  break appends: a document without a line break element has no two adjacent
  whitespace characters at all.
\<close>

theorem whitespace_law:
  "(Suc i < length (doc_text (document_of f root)) \<and>
    isspace (doc_text (document_of f root) ! i) \<and>
    isspace (doc_text (document_of f root) ! Suc i) \<longrightarrow>
      doc_text (document_of f root) ! Suc i = newline) \<and>
   ((\<forall>e \<in> set (iter root). local_name (el_tag e) \<noteq> ''lb'') \<longrightarrow>
      \<not> (Suc i < length (doc_text (document_of f root)) \<and>
         isspace (doc_text (document_of f root) ! i) \<and>
         isspace (doc_text (document_of f root) ! Suc i)))"
proof -
  let ?T = "doc_text (document_of f root)"
  have T: "?T = text_content (walk_document root)" by (simp add: document_of_simps)
  have law: "ws_law ?T" using walk_document_tgood [of root] by (simp add: tgood_def T)
  have 1: "Suc i < length ?T \<and> isspace (?T ! i) \<and> isspace (?T ! Suc i) \<longrightarrow> ?T ! Suc i = newline"
    using law unfolding ws_law_def by blast
  have 2: "\<not> (Suc i < length ?T \<and> isspace (?T ! i) \<and> isspace (?T ! Suc i))"
    if h: "\<forall>e \<in> set (iter root). local_name (el_tag e) \<noteq> ''lb''"
  proof
    assume a: "Suc i < length ?T \<and> isspace (?T ! i) \<and> isspace (?T ! Suc i)"
    with 1 have "?T ! Suc i = newline" by blast
    with a have "newline \<in> set ?T" by (metis nth_mem)
    moreover have "newline \<notin> set ?T"
      using walk_document_nl_free [OF h] by (simp add: nl_free_def T)
    ultimately show False by simp
  qed
  from 1 2 show ?thesis by blast
qed

theorem whitespace_law_witness:
  "Suc 3 < length (doc_text (document_of ''f.xml'' lb_space_example)) \<and>
   isspace (doc_text (document_of ''f.xml'' lb_space_example) ! 3) \<and>
   isspace (doc_text (document_of ''f.xml'' lb_space_example) ! Suc 3) \<and>
   doc_text (document_of ''f.xml'' lb_space_example) ! Suc 3 = newline \<and>
   doc_text (document_of ''f.xml'' lb_space_example) = ''foo '' @ [newline] @ ''bar'' \<and>
   list_all (\<lambda>e. local_name (el_tag e) \<noteq> ''lb'') (iter choice_example) \<and>
   doc_text (document_of ''f.xml'' choice_example) = ''Treaty of January 1291'' \<and>
   isspace (doc_text (document_of ''f.xml'' choice_example) ! 9) \<and>
   \<not> isspace (doc_text (document_of ''f.xml'' choice_example) ! Suc 9)"
proof -
  have ev:
    "doc_text (document_of ''f.xml'' lb_space_example) = ''foo '' @ [newline] @ ''bar''"
    "doc_text (document_of ''f.xml'' choice_example) = ''Treaty of January 1291''"
    "list_all (\<lambda>e. local_name (el_tag e) \<noteq> ''lb'') (iter choice_example)"
    by code_simp+
  then have nolb: "\<forall>e \<in> set (iter choice_example). local_name (el_tag e) \<noteq> ''lb''"
    by (simp add: list_all_iff)
  show ?thesis
    using whitespace_law [of 3 "''f.xml''" lb_space_example]
      whitespace_law [of 9 "''f.xml''" choice_example] ev nolb
    by (simp add: isspace_def)
qed

text \<open>
  Claim C10. Every whitespace character of the text of an extracted document is a space
  or a newline, and without a line break element it is a space: the cleaning of
  \<open>add_text_to_context\<close> leaves no whitespace character but the space, the loop appends
  characters of the cleaned text only, and only the handling of a line break appends a
  newline.
\<close>

theorem whitespace_chars:
  "(\<forall>c \<in> set (doc_text (document_of f root)). isspace c \<longrightarrow> c = space \<or> c = newline) \<and>
   ((\<forall>e \<in> set (iter root). local_name (el_tag e) \<noteq> ''lb'') \<longrightarrow>
      (\<forall>c \<in> set (doc_text (document_of f root)). isspace c \<longrightarrow> c = space)) \<and>
   (\<forall>c \<in> set (sub_ws_plus s). isspace c \<longrightarrow> c = space) \<and>
   (truthy t \<longrightarrow> add_text_to_context t ctx = add_chars (sub_ws_plus (str_of t)) ctx) \<and>
   set (text_content (add_chars s' ctx)) \<subseteq> set (text_content ctx) \<union> set s'"
proof -
  let ?T = "doc_text (document_of f root)"
  have T: "?T = text_content (walk_document root)" by (simp add: document_of_simps)
  have 1: "\<forall>c \<in> set ?T. isspace c \<longrightarrow> c = space \<or> c = newline"
    using walk_document_tgood [of root] by (simp add: tgood_def T ws_chars_def)
  have 2: "\<forall>c \<in> set ?T. isspace c \<longrightarrow> c = space"
    if h: "\<forall>e \<in> set (iter root). local_name (el_tag e) \<noteq> ''lb''"
  proof -
    have "newline \<notin> set ?T" using walk_document_nl_free [OF h] by (simp add: nl_free_def T)
    with 1 show ?thesis by blast
  qed
  have 3: "\<forall>c \<in> set (sub_ws_plus s). isspace c \<longrightarrow> c = space"
    using sub_ws_plus_chars by blast
  have 4: "truthy t \<longrightarrow> add_text_to_context t ctx = add_chars (sub_ws_plus (str_of t)) ctx"
    by (simp add: add_text_to_context_def)
  from 1 2 3 4 add_chars_set [of s' ctx] show ?thesis by blast
qed

theorem whitespace_chars_witness:
  "doc_text (document_of ''f.xml'' tab_example) = [CHR ''a'', space, CHR ''b'', newline, CHR ''c''] \<and>
   isspace (CHR 0x09) \<and> isspace (CHR 0x0D) \<and>
   CHR 0x09 \<notin> set (doc_text (document_of ''f.xml'' tab_example)) \<and>
   CHR 0x0D \<notin> set (doc_text (document_of ''f.xml'' tab_example)) \<and>
   list_all (\<lambda>e. local_name (el_tag e) \<noteq> ''lb'') (iter choice_example) \<and>
   newline \<notin> set (doc_text (document_of ''f.xml'' choice_example)) \<and>
   sub_ws_plus [CHR ''a'', CHR 0x09, CHR 0x0D, newline, CHR ''b''] = ''a b'' \<and>
   truthy (Some ''a b'') \<and>
   text_content (add_text_to_context (Some ''a b'') initial_context) = ''a b''"
proof -
  have ev:
    "doc_text (document_of ''f.xml'' tab_example) = [CHR ''a'', space, CHR ''b'', newline, CHR ''c'']"
    "list_all (\<lambda>e. local_name (el_tag e) \<noteq> ''lb'') (iter choice_example)"
    "sub_ws_plus [CHR ''a'', CHR 0x09, CHR 0x0D, newline, CHR ''b''] = ''a b''"
    "text_content (add_text_to_context (Some ''a b'') initial_context) = ''a b''"
    by code_simp+
  have ws: "isspace (CHR 0x09)" "isspace (CHR 0x0D)" "isspace newline"
    by (simp_all add: isspace_def)
  have nolb: "\<forall>e \<in> set (iter choice_example). local_name (el_tag e) \<noteq> ''lb''"
    using ev(2) by (simp only: list_all_iff)
  note inst1 = whitespace_chars [of "''f.xml''" tab_example
        "[CHR ''a'', CHR 0x09, CHR 0x0D, newline, CHR ''b'']" "Some ''a b''" initial_context "''a b''"]
  note inst2 = whitespace_chars [of "''f.xml''" choice_example "[]" None initial_context "[]"]
  from inst1 have a: "\<forall>c \<in> set (doc_text (document_of ''f.xml'' tab_example)).
      isspace c \<longrightarrow> c = space \<or> c = newline" by (rule conjunct1)
  have t1: "CHR 0x09 \<notin> set (doc_text (document_of ''f.xml'' tab_example))"
    using a ws(1) by fastforce
  have t2: "CHR 0x0D \<notin> set (doc_text (document_of ''f.xml'' tab_example))"
    using a ws(2) by fastforce
  from inst2 nolb have b: "\<forall>c \<in> set (doc_text (document_of ''f.xml'' choice_example)).
      isspace c \<longrightarrow> c = space" by blast
  have t3: "newline \<notin> set (doc_text (document_of ''f.xml'' choice_example))"
    using b ws(3) by fastforce
  show ?thesis using ev ws t1 t2 t3 by simp
qed

section \<open>The special forms\<close>

lemma add_chars_frame [simp]:
  "annotations (add_chars s ctx) = annotations ctx"
  "pages (add_chars s ctx) = pages ctx"
  "current_page (add_chars s ctx) = current_page ctx"
  by (induction s arbitrary: ctx) simp_all

lemma add_text_frame [simp]:
  "annotations (add_text_to_context t ctx) = annotations ctx"
  "pages (add_text_to_context t ctx) = pages ctx"
  "current_page (add_text_to_context t ctx) = current_page ctx"
  by (simp_all add: add_text_to_context_def)

lemma add_text_not_truthy: "\<not> truthy t \<Longrightarrow> add_text_to_context t ctx = ctx"
  by (simp add: add_text_to_context_def)

lemma erase_del_sel [simp]:
  "el_tag (erase_del e) = el_tag e" "tail (erase_del e) = tail e"
  by (cases e; simp)+


text \<open>
  Claim C3. For an element named \<open>lb\<close> the walker appends one newline whatever the
  whitespace flag says, adds 1 to the position and sets the flag; nothing else of the
  context changes. The document \<open>foo<lb/>bar\<close> gives the text \<open>foo\nbar\<close>.
\<close>

theorem line_break:
  "(local_name (el_tag el) = ''lb'' \<longrightarrow>
      process_element el ctx =
        ctx\<lparr>text_content := text_content ctx @ [newline],
            global_offset := global_offset ctx + 1,
            last_char_is_whitespace := True\<rparr>) \<and>
   doc_text (document_of f lb_example) = ''foo'' @ [newline] @ ''bar''"
proof
  show "local_name (el_tag el) = ''lb'' \<longrightarrow>
      process_element el ctx =
        ctx\<lparr>text_content := text_content ctx @ [newline],
            global_offset := global_offset ctx + 1,
            last_char_is_whitespace := True\<rparr>"
    by (cases el) (simp add: Let_def annotate_element_def structural_def process_lb_def)
  have "text_content (walk_document lb_example) = ''foo'' @ [newline] @ ''bar''"
    by code_simp
  then show "doc_text (document_of f lb_example) = ''foo'' @ [newline] @ ''bar''"
    by (simp add: document_of_simps)
qed

theorem line_break_witness:
  "local_name (el_tag (Element (tei ''lb'') [] None (Some ''bar'') [])) = ''lb'' \<and>
   process_element (Element (tei ''lb'') [] None (Some ''bar'') [])
     \<lparr>text_content = ''foo '', annotations = [], pages = [], current_page = None,
      global_offset = 4, ctx_alternative_text = None, last_char_is_whitespace = True\<rparr> =
     \<lparr>text_content = ''foo '' @ [newline], annotations = [], pages = [], current_page = None,
      global_offset = 5, ctx_alternative_text = None, last_char_is_whitespace = True\<rparr>"
proof -
  have n: "local_name (el_tag (Element (tei ''lb'') [] None (Some ''bar'') [])) = ''lb''"
    by code_simp
  show ?thesis
    using line_break [of "Element (tei ''lb'') [] None (Some ''bar'') []"
        "\<lparr>text_content = ''foo '', annotations = [], pages = [], current_page = None,
          global_offset = 4, ctx_alternative_text = None, last_char_is_whitespace = True\<rparr>" "''f.xml''"] n
    by simp
qed

text \<open>
  Claim C4. For an element named \<open>choice\<close> the walker appends the preferred text (the
  canonical text of the expansion if it is not empty, else that of the abbreviation)
  with \<open>add_text_to_context\<close>, walks no child, and records one annotation of type
  \<open>choice\<close> from the position at entry to the position after the append, with the
  preferred text, the text of the other side and the current page. The example with
  \<open>Jan.\<close> and \<open>January\<close> gives the text \<open>Treaty of January 1291\<close> and one
  annotation with text \<open>January\<close> and alternative \<open>Jan.\<close> at 10 to 17.
\<close>

theorem choice_handling:
  "(local_name (el_tag el) = ''choice'' \<longrightarrow>
      process_element el ctx =
        (let abbr_text = map_option get_element_text (find_descendant ''abbr'' el);
             expan_text = map_option get_element_text (find_descendant ''expan'' el);
             preferred = (if truthy expan_text then expan_text else abbr_text);
             other = (if truthy expan_text then abbr_text else expan_text);
             ctx1 = add_text_to_context preferred ctx
         in ctx1\<lparr>annotations := annotations ctx @
              [\<lparr>ann_type = ''choice'', attributes = None, ann_text = preferred,
                alternative_text = other, start_offset = global_offset ctx,
                end_offset = global_offset ctx1, page = current_page ctx,
                details = None\<rparr>]\<rparr>)) \<and>
   doc_text (document_of f choice_example) = ''Treaty of January 1291'' \<and>
   doc_annotations (document_of f choice_example) =
     [\<lparr>ann_type = ''choice'', attributes = None, ann_text = Some ''January'',
       alternative_text = Some ''Jan.'', start_offset = 10, end_offset = 17,
       page = None, details = None\<rparr>]"
proof (intro conjI impI)
  assume "local_name (el_tag el) = ''choice''"
  then have "process_element el ctx = process_choice el ctx"
    by (cases el) (simp add: Let_def)
  also have "\<dots> = (let abbr_text = map_option get_element_text (find_descendant ''abbr'' el);
             expan_text = map_option get_element_text (find_descendant ''expan'' el);
             preferred = (if truthy expan_text then expan_text else abbr_text);
             other = (if truthy expan_text then abbr_text else expan_text);
             ctx1 = add_text_to_context preferred ctx
         in ctx1\<lparr>annotations := annotations ctx @
              [\<lparr>ann_type = ''choice'', attributes = None, ann_text = preferred,
                alternative_text = other, start_offset = global_offset ctx,
                end_offset = global_offset ctx1, page = current_page ctx,
                details = None\<rparr>]\<rparr>)"
    by (auto simp: process_choice_def Let_def add_text_not_truthy)
  finally show "process_element el ctx = (let abbr_text = map_option get_element_text (find_descendant ''abbr'' el);
             expan_text = map_option get_element_text (find_descendant ''expan'' el);
             preferred = (if truthy expan_text then expan_text else abbr_text);
             other = (if truthy expan_text then abbr_text else expan_text);
             ctx1 = add_text_to_context preferred ctx
         in ctx1\<lparr>annotations := annotations ctx @
              [\<lparr>ann_type = ''choice'', attributes = None, ann_text = preferred,
                alternative_text = other, start_offset = global_offset ctx,
                end_offset = global_offset ctx1, page = current_page ctx,
                details = None\<rparr>]\<rparr>)" .
next
  have "text_content (walk_document choice_example) = ''Treaty of January 1291''"
    by code_simp
  then show "doc_text (document_of f choice_example) = ''Treaty of January 1291''"
    by (simp add: document_of_simps)
next
  have "annotations (walk_document choice_example) =
     [\<lparr>ann_type = ''choice'', attributes = None, ann_text = Some ''January'',
       alternative_text = Some ''Jan.'', start_offset = 10, end_offset = 17,
       page = None, details = None\<rparr>]"
    by code_simp
  then show "doc_annotations (document_of f choice_example) =
     [\<lparr>ann_type = ''choice'', attributes = None, ann_text = Some ''January'',
       alternative_text = Some ''Jan.'', start_offset = 10, end_offset = 17,
       page = None, details = None\<rparr>]"
    by (simp add: document_of_simps)
qed

theorem choice_handling_witness:
  "local_name (el_tag choice_node) = ''choice'' \<and>
   process_element choice_node initial_context =
     \<lparr>text_content = ''January'',
      annotations = [\<lparr>ann_type = ''choice'', attributes = None, ann_text = Some ''January'',
         alternative_text = Some ''Jan.'', start_offset = 0, end_offset = 7,
         page = None, details = None\<rparr>],
      pages = [], current_page = None, global_offset = 7, ctx_alternative_text = None,
      last_char_is_whitespace = False\<rparr>"
proof -
  have n: "local_name (el_tag choice_node) = ''choice''"
    by code_simp
  have inst: "process_element choice_node initial_context =
        (let abbr_text = map_option get_element_text (find_descendant ''abbr'' choice_node);
             expan_text = map_option get_element_text (find_descendant ''expan'' choice_node);
             preferred = (if truthy expan_text then expan_text else abbr_text);
             other = (if truthy expan_text then abbr_text else expan_text);
             ctx1 = add_text_to_context preferred initial_context
         in ctx1\<lparr>annotations := annotations initial_context @
              [\<lparr>ann_type = ''choice'', attributes = None, ann_text = preferred,
                alternative_text = other, start_offset = global_offset initial_context,
                end_offset = global_offset ctx1, page = current_page initial_context,
                details = None\<rparr>]\<rparr>)"
    using choice_handling [of choice_node initial_context "''f.xml''"] n by blast
  have "(let abbr_text = map_option get_element_text (find_descendant ''abbr'' choice_node);
             expan_text = map_option get_element_text (find_descendant ''expan'' choice_node);
             preferred = (if truthy expan_text then expan_text else abbr_text);
             other = (if truthy expan_text then abbr_text else expan_text);
             ctx1 = add_text_to_context preferred initial_context
         in ctx1\<lparr>annotations := annotations initial_context @
              [\<lparr>ann_type = ''choice'', attributes = None, ann_text = preferred,
                alternative_text = other, start_offset = global_offset initial_context,
                end_offset = global_offset ctx1, page = current_page initial_context,
                details = None\<rparr>]\<rparr>) =
     \<lparr>text_content = ''January'',
      annotations = [\<lparr>ann_type = ''choice'', attributes = None, ann_text = Some ''January'',
         alternative_text = Some ''Jan.'', start_offset = 0, end_offset = 7,
         page = None, details = None\<rparr>],
      pages = [], current_page = None, global_offset = 7, ctx_alternative_text = None,
      last_char_is_whitespace = False\<rparr>"
    by code_simp
  with inst n show ?thesis by (simp only:)
qed













text \<open>
  Claim C6. For an element named \<open>note\<close> the walker appends one space exactly if the
  whitespace flag is cleared, never the text of the note, and records one annotation of
  type \<open>note\<close> that starts at the position after that space and ends the length of the
  note's canonical text later. The example gives \<open>word next\<close> and a note annotation with
  the text \<open>comment\<close>.
\<close>

theorem note_handling:
  "(local_name (el_tag el) = ''note'' \<longrightarrow>
      process_element el ctx =
        (let ctx1 = (if last_char_is_whitespace ctx then ctx
                     else ctx\<lparr>text_content := text_content ctx @ [space],
                              global_offset := global_offset ctx + 1,
                              last_char_is_whitespace := True\<rparr>)
         in ctx1\<lparr>annotations := annotations ctx @
              [\<lparr>ann_type = ''note'', attributes = None,
                ann_text = Some (get_element_text el), alternative_text = None,
                start_offset = global_offset ctx1,
                end_offset = global_offset ctx1 + int (length (get_element_text el)),
                page = current_page ctx, details = None\<rparr>]\<rparr>) \<and>
      text_content (process_element el ctx) =
        text_content ctx @ (if last_char_is_whitespace ctx then [] else [space]) \<and>
      global_offset (process_element el ctx) =
        global_offset ctx + (if last_char_is_whitespace ctx then 0 else 1)) \<and>
   doc_text (document_of f note_example) = ''word next'' \<and>
   doc_annotations (document_of f note_example) =
     [\<lparr>ann_type = ''note'', attributes = None, ann_text = Some ''comment'',
       alternative_text = None, start_offset = 5, end_offset = 12,
       page = None, details = None\<rparr>]"
proof (intro conjI impI)
  assume n: "local_name (el_tag el) = ''note''"
  then have p: "process_element el ctx = process_note el ctx"
    by (cases el) (simp add: Let_def)
  then show "process_element el ctx =
        (let ctx1 = (if last_char_is_whitespace ctx then ctx
                     else ctx\<lparr>text_content := text_content ctx @ [space],
                              global_offset := global_offset ctx + 1,
                              last_char_is_whitespace := True\<rparr>)
         in ctx1\<lparr>annotations := annotations ctx @
              [\<lparr>ann_type = ''note'', attributes = None,
                ann_text = Some (get_element_text el), alternative_text = None,
                start_offset = global_offset ctx1,
                end_offset = global_offset ctx1 + int (length (get_element_text el)),
                page = current_page ctx, details = None\<rparr>]\<rparr>)"
    by (simp add: process_note_def Let_def)
  from p show "text_content (process_element el ctx) =
        text_content ctx @ (if last_char_is_whitespace ctx then [] else [space])"
    by (simp add: process_note_def Let_def)
  from p show "global_offset (process_element el ctx) =
        global_offset ctx + (if last_char_is_whitespace ctx then 0 else 1)"
    by (simp add: process_note_def Let_def)
next
  have "text_content (walk_document note_example) = ''word next''"
    by code_simp
  then show "doc_text (document_of f note_example) = ''word next''"
    by (simp add: document_of_simps)
next
  have "annotations (walk_document note_example) =
     [\<lparr>ann_type = ''note'', attributes = None, ann_text = Some ''comment'',
       alternative_text = None, start_offset = 5, end_offset = 12,
       page = None, details = None\<rparr>]"
    by code_simp
  then show "doc_annotations (document_of f note_example) =
     [\<lparr>ann_type = ''note'', attributes = None, ann_text = Some ''comment'',
       alternative_text = None, start_offset = 5, end_offset = 12,
       page = None, details = None\<rparr>]"
    by (simp add: document_of_simps)
qed

theorem note_handling_witness:
  "local_name (el_tag note_node) = ''note'' \<and>
   process_element note_node word_context =
     \<lparr>text_content = ''word '',
      annotations = [\<lparr>ann_type = ''note'', attributes = None, ann_text = Some ''comment'',
         alternative_text = None, start_offset = 5, end_offset = 12,
         page = Some ''3'', details = None\<rparr>],
      pages = [], current_page = Some ''3'', global_offset = 5, ctx_alternative_text = None,
      last_char_is_whitespace = True\<rparr>"
proof -
  have n: "local_name (el_tag note_node) = ''note''"
    by code_simp
  have inst: "process_element note_node word_context =
        (let ctx1 = (if last_char_is_whitespace word_context then word_context
                     else word_context\<lparr>text_content := text_content word_context @ [space],
                              global_offset := global_offset word_context + 1,
                              last_char_is_whitespace := True\<rparr>)
         in ctx1\<lparr>annotations := annotations word_context @
              [\<lparr>ann_type = ''note'', attributes = None,
                ann_text = Some (get_element_text note_node), alternative_text = None,
                start_offset = global_offset ctx1,
                end_offset = global_offset ctx1 + int (length (get_element_text note_node)),
                page = current_page word_context, details = None\<rparr>]\<rparr>)"
    using note_handling [of note_node word_context "''f.xml''"] n by blast
  have "(let ctx1 = (if last_char_is_whitespace word_context then word_context
                     else word_context\<lparr>text_content := text_content word_context @ [space],
                              global_offset := global_offset word_context + 1,
                              last_char_is_whitespace := True\<rparr>)
         in ctx1\<lparr>annotations := annotations word_context @
              [\<lparr>ann_type = ''note'', attributes = None,
                ann_text = Some (get_element_text note_node), alternative_text = None,
                start_offset = global_offset ctx1,
                end_offset = global_offset ctx1 + int (length (get_element_text note_node)),
                page = current_page word_context, details = None\<rparr>]\<rparr>) =
     \<lparr>text_content = ''word '',
      annotations = [\<lparr>ann_type = ''note'', attributes = None, ann_text = Some ''comment'',
         alternative_text = None, start_offset = 5, end_offset = 12,
         page = Some ''3'', details = None\<rparr>],
      pages = [], current_page = Some ''3'', global_offset = 5, ctx_alternative_text = None,
      last_char_is_whitespace = True\<rparr>"
    by code_simp
  with inst n show ?thesis by (simp only:)
qed

section \<open>The canonical text\<close>

lemma strip_rstrip: "strip s = rstrip (dropWhile isspace s)"
  by (simp add: strip_def rstrip_def)

lemma rstrip_Nil [simp]: "rstrip [] = []"
  by (simp add: rstrip_def)

lemma rstrip_Cons:
  "rstrip (x # xs) = (if \<forall>c \<in> set (x # xs). isspace c then [] else x # rstrip xs)"
proof (cases "\<forall>c \<in> set xs. isspace c")
  case True
  then have "dropWhile isspace (rev xs @ [x]) = dropWhile isspace [x]"
    by (intro dropWhile_append2) simp
  moreover have "dropWhile isspace (rev xs) = []" using True by simp
  ultimately show ?thesis using True by (simp add: rstrip_def)
next
  case False
  then obtain c where "c \<in> set (rev xs)" "\<not> isspace c" by auto
  then have "dropWhile isspace (rev xs @ [x]) = dropWhile isspace (rev xs) @ [x]"
    by (intro dropWhile_append1)
  with False show ?thesis by (auto simp: rstrip_def)
qed

lemma dropWhile_all_ws: "\<forall>c \<in> set s. isspace c \<Longrightarrow> dropWhile isspace s = []"
  by simp

lemma all_ws_dropWhile:
  "(\<forall>c \<in> set (dropWhile isspace s). isspace c) \<longleftrightarrow> (\<forall>c \<in> set s. isspace c)"
  by (induction s) auto

lemma spaced_simps [simp]:
  "spaced [] = []"
  "spaced (c # cs) = (if isspace c then space else c) # spaced cs"
  "spaced (a @ b) = spaced a @ spaced b"
  by (simp_all add: spaced_def)

lemma spaced_idem [simp]: "spaced (spaced s) = spaced s"
  by (induction s) auto

lemma dropWhile_spaced: "dropWhile isspace (spaced s) = spaced (dropWhile isspace s)"
  by (induction s) auto

lemma sub_ws_plus_spaced: "sub_ws_plus (spaced s) = sub_ws_plus s"
  by (induction s rule: sub_ws_plus.induct) (auto simp: dropWhile_spaced)

lemma spaced_sub_ws_plus: "spaced (sub_ws_plus s) = sub_ws_plus s"
  by (induction s rule: sub_ws_plus.induct) auto

lemma spaced_sub_ws_two: "spaced (sub_ws_two s) = sub_ws_plus s"
  by (induction s rule: sub_ws_two.induct) (auto split: list.splits)

lemma sub_ws_plus_all_ws:
  "(\<forall>c \<in> set (sub_ws_plus s). isspace c) \<longleftrightarrow> (\<forall>c \<in> set s. isspace c)"
proof (induction s rule: sub_ws_plus.induct)
  case 1
  then show ?case by simp
next
  case (2 c cs)
  with all_ws_dropWhile [of cs] show ?case by auto
qed

lemma dropWhile_sub_ws_plus:
  "dropWhile isspace (sub_ws_plus (dropWhile isspace s)) = sub_ws_plus (dropWhile isspace s)"
proof (cases "dropWhile isspace s")
  case Nil
  then show ?thesis by (simp only: sub_ws_plus.simps dropWhile.simps)
next
  case (Cons d ds)
  then have "\<not> isspace d" by (metis hd_dropWhile list.sel(1) list.distinct(1))
  with Cons show ?thesis by simp
qed

lemma sub_ws_plus_lstrip:
  "sub_ws_plus (dropWhile isspace s) = dropWhile isspace (sub_ws_plus s)"
  by (cases s) (simp_all add: dropWhile_sub_ws_plus)

lemma dropWhile_rstrip: "dropWhile isspace (rstrip s) = rstrip (dropWhile isspace s)"
proof (induction s)
  case Nil
  then show ?case by simp
next
  case (Cons x xs)
  show ?case
  proof (cases "isspace x")
    case True
    show ?thesis
    proof (cases "\<forall>c \<in> set xs. isspace c")
      case T: True
      with True show ?thesis by (simp add: rstrip_Cons dropWhile_all_ws)
    next
      case False
      with True Cons show ?thesis by (auto simp: rstrip_Cons)
    qed
  next
    case False
    then show ?thesis by (simp add: rstrip_Cons)
  qed
qed

lemma sub_ws_plus_rstrip: "sub_ws_plus (rstrip s) = rstrip (sub_ws_plus s)"
proof (induction s rule: sub_ws_plus.induct)
  case 1
  then show ?case by simp
next
  case (2 c cs)
  show ?case
  proof (cases "isspace c")
    case True
    show ?thesis
    proof (cases "\<forall>c \<in> set cs. isspace c")
      case T: True
      with True show ?thesis by (simp add: rstrip_Cons dropWhile_all_ws)
    next
      case False
      have nall: "\<not> (\<forall>c \<in> set (sub_ws_plus (dropWhile isspace cs)). isspace c)"
        using False by (simp add: sub_ws_plus_all_ws all_ws_dropWhile)
      have "sub_ws_plus (rstrip (c # cs)) = space # sub_ws_plus (dropWhile isspace (rstrip cs))"
        using True False by (simp add: rstrip_Cons)
      also have "\<dots> = space # rstrip (sub_ws_plus (dropWhile isspace cs))"
        using 2 True by (simp add: dropWhile_rstrip)
      also have "\<dots> = rstrip (sub_ws_plus (c # cs))"
        using True nall by (simp add: rstrip_Cons)
      finally show ?thesis .
    qed
  next
    case False
    with 2 show ?thesis by (simp add: rstrip_Cons)
  qed
qed

lemma sub_ws_plus_strip: "sub_ws_plus (strip s) = strip (sub_ws_plus s)"
  by (simp add: strip_rstrip sub_ws_plus_rstrip sub_ws_plus_lstrip)

lemma spaced_remove_extra_spaces: "spaced (remove_extra_spaces s) = normalize_spec s"
  by (simp add: remove_extra_spaces_def normalize_spec_def spaced_sub_ws_two sub_ws_plus_strip)

lemma normalize_spec_spaced: "normalize_spec (spaced s) = normalize_spec s"
  by (simp add: normalize_spec_def sub_ws_plus_spaced)

lemma truthy_str_of: "(if truthy t then str_of t else []) = str_of t"
  by (cases t) auto

lemma spaced_get_element_text:
  "spaced (get_element_text el) = canonical_text_spec el"
  "spaced (get_children_text els) = spaced (canonical_children_spec els)"
proof (induction el and els rule: get_element_text_get_children_text.induct)
  case (1 t a tx tt cs)
  have "spaced (get_element_text (Element t a tx tt cs)) =
      normalize_spec (str_of tx @ get_children_text cs)"
    by (simp add: truthy_str_of spaced_remove_extra_spaces)
  also have "\<dots> = normalize_spec (spaced (str_of tx) @ spaced (get_children_text cs))"
    using normalize_spec_spaced [of "str_of tx @ get_children_text cs"] by simp
  also have "\<dots> = normalize_spec (spaced (str_of tx @ canonical_children_spec cs))"
    using 1 by simp
  also have "\<dots> = canonical_text_spec (Element t a tx tt cs)"
    by (simp only: normalize_spec_spaced canonical_text_spec.simps)
  finally show ?case .
next
  case 2
  then show ?case by simp
next
  case (3 c cs)
  have "spaced (canonical_text_spec c) = canonical_text_spec c"
    if "local_name (el_tag c) \<noteq> ''del''"
    using "3.IH"(1) [OF that] by (metis spaced_idem)
  with 3 show ?case by (simp add: truthy_str_of)
qed

lemma no_adjacent_ws_Cons:
  "no_adjacent_ws (a # s) \<longleftrightarrow> (s = [] \<or> \<not> (isspace a \<and> isspace (hd s))) \<and> no_adjacent_ws s"
  by (cases s) auto

lemma sub_ws_two_hd:
  "s \<noteq> [] \<Longrightarrow> \<not> isspace (hd s) \<Longrightarrow> sub_ws_two s \<noteq> [] \<and> hd (sub_ws_two s) = hd s"
  by (cases s) auto

lemma dropWhile_hd: "dropWhile isspace s = [] \<or> \<not> isspace (hd (dropWhile isspace s))"
  by (metis hd_dropWhile)

lemma no_adjacent_ws_sub_ws_two: "no_adjacent_ws (sub_ws_two s)"
proof (induction s rule: sub_ws_two.induct)
  case 1
  then show ?case by simp
next
  case (2 c cs)
  show ?case
  proof (cases "isspace c")
    case False
    with 2 show ?thesis by (simp add: no_adjacent_ws_Cons)
  next
    case True
    show ?thesis
    proof (cases cs)
      case Nil
      with True show ?thesis by simp
    next
      case (Cons d ds)
      show ?thesis
      proof (cases "isspace d")
        case d: True
        let ?r = "dropWhile isspace ds"
        have ih: "no_adjacent_ws (sub_ws_two ?r)" using 2(1) True Cons d by simp
        have "sub_ws_two ?r = [] \<or> \<not> isspace (hd (sub_ws_two ?r))"
        proof (cases "?r = []")
          case True
          then show ?thesis by (simp only: sub_ws_two.simps simp_thms)
        next
          case False
          with dropWhile_hd [of ds] have "\<not> isspace (hd ?r)" by blast
          with False show ?thesis using sub_ws_two_hd [of ?r] by simp
        qed
        with ih True Cons d show ?thesis by (simp add: no_adjacent_ws_Cons)
      next
        case d: False
        with 2(2) True Cons have "no_adjacent_ws (sub_ws_two ds)" by simp
        with True Cons d show ?thesis by (simp add: no_adjacent_ws_Cons)
      qed
    qed
  qed
qed

lemma last_dropWhile:
  "dropWhile P xs \<noteq> [] \<Longrightarrow> last (dropWhile P xs) = last xs"
  by (metis last_appendR takeWhile_dropWhile_id)

lemma sub_ws_two_last:
  "s \<noteq> [] \<Longrightarrow> \<not> isspace (last s) \<Longrightarrow> sub_ws_two s \<noteq> [] \<and> last (sub_ws_two s) = last s"
proof (induction s rule: sub_ws_two.induct)
  case 1
  then show ?case by simp
next
  case (2 c cs)
  show ?case
  proof (cases "isspace c")
    case False
    with 2 show ?thesis by (cases cs) (auto split: if_splits)
  next
    case True
    show ?thesis
    proof (cases cs)
      case Nil
      with True 2 show ?thesis by simp
    next
      case (Cons d ds)
      show ?thesis
      proof (cases "isspace d")
        case d: True
        let ?r = "dropWhile isspace ds"
        from "2.prems" Cons d have ds: "ds \<noteq> []" "\<not> isspace (last ds)"
          by (auto split: if_splits)
        then have "\<exists>x \<in> set ds. \<not> isspace x" using last_in_set by blast
        then have r: "?r \<noteq> []" by simp
        then have lr: "last ?r = last ds" by (rule last_dropWhile)
        have "sub_ws_two ?r \<noteq> [] \<and> last (sub_ws_two ?r) = last ?r"
          using 2(1) True Cons d r lr ds by simp
        with True Cons d lr ds show ?thesis by simp
      next
        case d: False
        show ?thesis
        proof (cases ds)
          case Nil
          with True Cons d show ?thesis by simp
        next
          case ds: (Cons e es)
          with "2.prems" Cons have "\<not> isspace (last ds)" by simp
          with 2(2) True Cons d ds have "sub_ws_two ds \<noteq> [] \<and> last (sub_ws_two ds) = last ds"
            by simp
          with True Cons d ds show ?thesis by simp
        qed
      qed
    qed
  qed
qed

lemma trimmed_strip: "trimmed (strip s)"
proof (cases "strip s = []")
  case True
  then show ?thesis by (simp add: trimmed_def)
next
  case False
  let ?t = "dropWhile isspace s"
  from False have t: "?t \<noteq> []" by (metis strip_rstrip rstrip_Nil)
  then obtain x xs where x: "?t = x # xs" by (cases ?t) auto
  have nx: "\<not> isspace x" using dropWhile_hd [of s] x by simp
  have "strip s = x # rstrip xs" using x nx by (simp add: strip_rstrip rstrip_Cons)
  then have h: "\<not> isspace (hd (strip s))" using nx by simp
  have "last (strip s) = hd (dropWhile isspace (rev ?t))"
    using False by (simp add: strip_def last_rev)
  moreover have "dropWhile isspace (rev ?t) \<noteq> []"
    using False unfolding strip_def rev_is_Nil_conv .
  ultimately have "\<not> isspace (last (strip s))" by (metis hd_dropWhile)
  with h show ?thesis by (simp add: trimmed_def)
qed

lemma trimmed_sub_ws_two: "trimmed s \<Longrightarrow> trimmed (sub_ws_two s)"
proof (cases "s = []")
  case True
  then show ?thesis by (simp add: trimmed_def)
next
  case False
  assume "trimmed s"
  with False have h: "\<not> isspace (hd s)" and l: "\<not> isspace (last s)"
    by (simp_all add: trimmed_def)
  from sub_ws_two_hd [OF False h] sub_ws_two_last [OF False l] h l
  show ?thesis by (simp add: trimmed_def)
qed

lemma strip_trimmed: "trimmed s \<Longrightarrow> strip s = s"
proof (cases s)
  case Nil
  then show ?thesis by (simp add: strip_def)
next
  case (Cons x xs)
  assume "trimmed s"
  with Cons have h: "\<not> isspace x" and l: "\<not> isspace (last s)" by (auto simp: trimmed_def)
  from h Cons have 1: "dropWhile isspace s = s" by simp
  from Cons have "rev s \<noteq> []" by simp
  then obtain y ys where y: "rev s = y # ys" by (cases "rev s") auto
  then have "y = last s" using Cons by (metis hd_rev list.sel(1))
  with l have "dropWhile isspace (y # ys) = y # ys" by simp
  then have "dropWhile isspace (rev s) = rev s" by (simp only: y)
  with 1 show ?thesis by (simp add: strip_def)
qed

lemma sub_ws_two_fixed: "no_adjacent_ws s \<Longrightarrow> sub_ws_two s = s"
proof (induction s rule: sub_ws_two.induct)
  case 1
  then show ?case by simp
next
  case (2 c cs)
  from "2.prems" have tl: "no_adjacent_ws cs" by (simp add: no_adjacent_ws_Cons)
  show ?case
  proof (cases "isspace c")
    case False
    with 2(3) tl show ?thesis by simp
  next
    case True
    show ?thesis
    proof (cases cs)
      case Nil
      with True show ?thesis by simp
    next
      case (Cons d ds)
      with "2.prems" True have d: "\<not> isspace d" by simp
      from tl Cons have "no_adjacent_ws ds" by (simp add: no_adjacent_ws_Cons)
      with 2(2) True Cons d have "sub_ws_two ds = ds" by simp
      with True Cons d show ?thesis by simp
    qed
  qed
qed

lemma trimmed_get_element_text: "trimmed (get_element_text el)"
  by (cases el) (simp add: remove_extra_spaces_def trimmed_sub_ws_two trimmed_strip)

lemma no_adjacent_ws_get_element_text: "no_adjacent_ws (get_element_text el)"
  by (cases el) (simp add: remove_extra_spaces_def no_adjacent_ws_sub_ws_two)

lemma get_children_text_concat:
  "get_children_text cs =
     concat (map (\<lambda>c. (if local_name (el_tag c) = ''del'' then [] else get_element_text c)
                    @ str_of (tail c)) cs)"
  by (induction cs) (simp_all add: truthy_str_of)

lemma strip_decompose:
  "s = takeWhile isspace s @ strip s @ rev (takeWhile isspace (rev (dropWhile isspace s)))"
proof -
  let ?t = "dropWhile isspace s"
  have "rev ?t = takeWhile isspace (rev ?t) @ dropWhile isspace (rev ?t)"
    by (simp only: takeWhile_dropWhile_id)
  then have "rev (rev ?t) = rev (takeWhile isspace (rev ?t) @ dropWhile isspace (rev ?t))"
    by (simp only:)
  then have "?t = strip s @ rev (takeWhile isspace (rev ?t))"
    by (simp only: rev_rev_ident rev_append strip_def)
  moreover have "s = takeWhile isspace s @ ?t" by (simp only: takeWhile_dropWhile_id)
  ultimately show ?thesis by (simp only:)
qed

lemma strip_between_ws:
  "\<exists>a b. s = a @ strip s @ b \<and> (\<forall>c \<in> set a. isspace c) \<and> (\<forall>c \<in> set b. isspace c)"
proof (intro exI conjI)
  show "s = takeWhile isspace s @ strip s @ rev (takeWhile isspace (rev (dropWhile isspace s)))"
    by (rule strip_decompose)
  show "\<forall>c \<in> set (takeWhile isspace s). isspace c"
    by (auto dest: set_takeWhileD)
  show "\<forall>c \<in> set (rev (takeWhile isspace (rev (dropWhile isspace s)))). isspace c"
    by (auto dest: set_takeWhileD)
qed

lemma dropWhile_ws_run:
  "\<forall>c \<in> set w. isspace c \<Longrightarrow> r = [] \<or> \<not> isspace (hd r) \<Longrightarrow> dropWhile isspace (w @ r) = r"
  by (cases r) (simp_all add: dropWhile_append2)

lemma sub_ws_two_run:
  assumes "w \<noteq> []" "\<forall>c \<in> set w. isspace c" "r = [] \<or> \<not> isspace (hd r)"
  shows "sub_ws_two (w @ r) = (if 2 \<le> length w then [space] else w) @ sub_ws_two r"
proof (cases w)
  case Nil
  with assms(1) show ?thesis by simp
next
  case (Cons x w')
  with assms(2) have x: "isspace x" by simp
  show ?thesis
  proof (cases w')
    case Nil
    show ?thesis
    proof (cases r)
      case r: Nil
      with Cons Nil x show ?thesis by simp
    next
      case r: (Cons d ds)
      with assms(3) have "\<not> isspace d" by simp
      with Cons Nil x r show ?thesis by simp
    qed
  next
    case w': (Cons y w'')
    with Cons assms(2) have y: "isspace y" and rest: "\<forall>c \<in> set w''. isspace c" by simp_all
    have "dropWhile isspace (w'' @ r) = r" using rest assms(3) by (rule dropWhile_ws_run)
    with Cons w' x y show ?thesis by simp
  qed
qed

text \<open>
  Claim C7, amended. \<open>get_element_text\<close> takes the direct text, the canonical text of
  every child that is not a \<open>del\<close> and the tail text of every child, concatenated.
  \<open>strip\<close> removes whitespace, and nothing else, from both ends. \<open>sub_ws_two\<close> then
  keeps every character that is not whitespace, replaces every maximal run of two or
  more whitespace characters by exactly one space, and keeps a whitespace character
  that stands alone as it is, also where runs occur elsewhere in the text. So the
  result is trimmed, has no two adjacent whitespace characters, is the canonical text
  of the specification once every whitespace character is read as a space, and a text
  already of that shape comes back unchanged. The function takes no context and so
  moves no position.
\<close>

theorem extractor_normalises:
  "get_element_text el =
     sub_ws_two (strip (str_of (el_text el) @
       concat (map (\<lambda>c. (if local_name (el_tag c) = ''del'' then [] else get_element_text c)
                      @ str_of (tail c)) (children el)))) \<and>
   (\<exists>a b. s = a @ strip s @ b \<and> (\<forall>c \<in> set a. isspace c) \<and> (\<forall>c \<in> set b. isspace c)) \<and>
   trimmed (strip s) \<and>
   sub_ws_two [] = [] \<and>
   (\<not> isspace x \<longrightarrow> sub_ws_two (x # r) = x # sub_ws_two r) \<and>
   (w \<noteq> [] \<and> (\<forall>c \<in> set w. isspace c) \<and> (r = [] \<or> \<not> isspace (hd r)) \<longrightarrow>
      sub_ws_two (w @ r) = (if 2 \<le> length w then [space] else w) @ sub_ws_two r) \<and>
   spaced (get_element_text el) = canonical_text_spec el \<and>
   trimmed (get_element_text el) \<and> no_adjacent_ws (get_element_text el) \<and>
   (trimmed s \<and> no_adjacent_ws s \<longrightarrow> remove_extra_spaces s = s)"
proof (intro conjI impI)
  have "get_element_text el =
      remove_extra_spaces (str_of (el_text el) @ get_children_text (children el))"
    by (cases el) (simp add: truthy_str_of)
  then show "get_element_text el =
     sub_ws_two (strip (str_of (el_text el) @
       concat (map (\<lambda>c. (if local_name (el_tag c) = ''del'' then [] else get_element_text c)
                      @ str_of (tail c)) (children el))))"
    by (simp only: remove_extra_spaces_def get_children_text_concat)
  show "\<exists>a b. s = a @ strip s @ b \<and> (\<forall>c \<in> set a. isspace c) \<and> (\<forall>c \<in> set b. isspace c)"
    by (rule strip_between_ws)
  show "trimmed (strip s)" by (rule trimmed_strip)
  show "sub_ws_two [] = []" by simp
  show "sub_ws_two (x # r) = x # sub_ws_two r" if "\<not> isspace x"
    using that by simp
  show "sub_ws_two (w @ r) = (if 2 \<le> length w then [space] else w) @ sub_ws_two r"
    if "w \<noteq> [] \<and> (\<forall>c \<in> set w. isspace c) \<and> (r = [] \<or> \<not> isspace (hd r))"
    using that by (intro sub_ws_two_run) simp_all
  show "spaced (get_element_text el) = canonical_text_spec el"
    by (rule spaced_get_element_text)
  show "trimmed (get_element_text el)" by (rule trimmed_get_element_text)
  show "no_adjacent_ws (get_element_text el)" by (rule no_adjacent_ws_get_element_text)
  show "remove_extra_spaces s = s" if "trimmed s \<and> no_adjacent_ws s"
    using that by (simp add: remove_extra_spaces_def strip_trimmed sub_ws_two_fixed)
qed

theorem extractor_normalises_witness:
  "\<not> isspace (CHR ''b'') \<and>
   sub_ws_two (CHR ''b'' # ''c'') = ''bc'' \<and>
   sub_ws_two ([newline, newline] @ ''c'') = '' c'' \<and>
   sub_ws_two ([CHR 0x09] @ ''c'') = [CHR 0x09, CHR ''c''] \<and>
   get_element_text mixed_whitespace_example = [CHR ''a'', CHR 0x09, CHR ''b'', space, CHR ''c''] \<and>
   trimmed (''Hans'' @ [newline] @ ''Muster'') \<and>
   no_adjacent_ws (''Hans'' @ [newline] @ ''Muster'') \<and>
   remove_extra_spaces (''Hans'' @ [newline] @ ''Muster'') = ''Hans'' @ [newline] @ ''Muster''"
proof -
  have ev: "trimmed (''Hans'' @ [newline] @ ''Muster'')"
    "no_adjacent_ws (''Hans'' @ [newline] @ ''Muster'')"
    "\<not> isspace (CHR ''b'')"
    "sub_ws_two ''c'' = ''c''"
    by code_simp+
  have h2: "[newline, newline] \<noteq> [] \<and> (\<forall>c \<in> set [newline, newline]. isspace c) \<and>
      (''c'' = [] \<or> \<not> isspace (hd ''c''))"
    by (simp add: isspace_def)
  have h1: "[CHR 0x09] \<noteq> [] \<and> (\<forall>c \<in> set [CHR 0x09]. isspace c) \<and>
      (''c'' = [] \<or> \<not> isspace (hd ''c''))"
    by (simp add: isspace_def)
  note i2 = extractor_normalises [of mixed_whitespace_example
      "''Hans'' @ [newline] @ ''Muster''" "CHR ''b''" "''c''" "[newline, newline]"]
  note i1 = extractor_normalises [of mixed_whitespace_example
      "''Hans'' @ [newline] @ ''Muster''" "CHR ''b''" "''c''" "[CHR 0x09]"]
  from i2 ev(3) have a: "sub_ws_two (CHR ''b'' # ''c'') = CHR ''b'' # sub_ws_two ''c''"
    by blast
  from i2 h2 have b: "sub_ws_two ([newline, newline] @ ''c'') =
      (if 2 \<le> length [newline, newline] then [space] else [newline, newline]) @ sub_ws_two ''c''"
    by blast
  from i1 h1 have c: "sub_ws_two ([CHR 0x09] @ ''c'') =
      (if 2 \<le> length [CHR 0x09] then [space] else [CHR 0x09]) @ sub_ws_two ''c''"
    by blast
  from i2 have d: "get_element_text mixed_whitespace_example =
     sub_ws_two (strip (str_of (el_text mixed_whitespace_example) @
       concat (map (\<lambda>c. (if local_name (el_tag c) = ''del'' then [] else get_element_text c)
                      @ str_of (tail c)) (children mixed_whitespace_example))))"
    by (rule conjunct1)
  have d': "sub_ws_two (strip (str_of (el_text mixed_whitespace_example) @
       concat (map (\<lambda>c. (if local_name (el_tag c) = ''del'' then [] else get_element_text c)
                      @ str_of (tail c)) (children mixed_whitespace_example)))) =
      [CHR ''a'', CHR 0x09, CHR ''b'', space, CHR ''c'']"
    by code_simp
  from i2 ev(1,2) have e:
    "remove_extra_spaces (''Hans'' @ [newline] @ ''Muster'') = ''Hans'' @ [newline] @ ''Muster''"
    by blast
  from a ev(4) have a': "sub_ws_two (CHR ''b'' # ''c'') = ''bc''" by simp
  from b ev(4) have b': "sub_ws_two ([newline, newline] @ ''c'') = '' c''" by simp
  from c ev(4) have c': "sub_ws_two ([CHR 0x09] @ ''c'') = [CHR 0x09, CHR ''c'']" by simp
  from d d' have d'': "get_element_text mixed_whitespace_example =
      [CHR ''a'', CHR 0x09, CHR ''b'', space, CHR ''c'']" by (simp only:)
  from ev a' b' c' d'' e show ?thesis by (simp only: simp_thms)
qed

text \<open>
  Claim C7 as stated fails: a newline alone between two words is not collapsed to a
  space.
\<close>

theorem extractor_normalises_counterexample:
  "get_element_text newline_example = ''Hans'' @ [newline] @ ''Muster'' \<and>
   canonical_text_spec newline_example = ''Hans Muster'' \<and>
   get_element_text newline_example \<noteq> canonical_text_spec newline_example"
proof -
  have ev: "get_element_text newline_example = ''Hans'' @ [newline] @ ''Muster''"
    "canonical_text_spec newline_example = ''Hans Muster''"
    by code_simp+
  then show ?thesis by simp
qed

section \<open>Reconciliation of the annotations\<close>

lemma reconcile_append: "reconcile (xs @ ys) st = reconcile ys (reconcile xs st)"
  by (induction xs arbitrary: st) simp_all

lemma written_step:
  "written (reconcile_step a st) =
     written st @ (if handled (text_var st) a then [row_of a] else [])"
  by (simp add: reconcile_step_def written_def handled_def row_of_def)

lemma text_var_step:
  "ann_type a \<noteq> ''placeName'' \<and> ann_type a \<noteq> ''persName'' \<Longrightarrow>
     text_var (reconcile_step a st) = text_var st"
  by (simp add: reconcile_step_def)

lemma reconcile_no_names:
  "\<forall>a \<in> set pre. ann_type a \<noteq> ''placeName'' \<and> ann_type a \<noteq> ''persName'' \<Longrightarrow>
     text_var (reconcile pre st) = text_var st \<and>
     written (reconcile pre st) = written st @ map row_of (filter (handled (text_var st)) pre)"
proof (induction pre arbitrary: st)
  case Nil
  then show ?case by simp
next
  case (Cons a pre)
  then have t: "text_var (reconcile_step a st) = text_var st" by (simp add: text_var_step)
  from Cons have "text_var (reconcile pre (reconcile_step a st)) = text_var (reconcile_step a st) \<and>
     written (reconcile pre (reconcile_step a st)) =
       written (reconcile_step a st) @ map row_of (filter (handled (text_var (reconcile_step a st))) pre)"
    by simp
  with t show ?case by (simp add: written_step)
qed

lemma rows_step: "prefix (rows st) (rows (reconcile_step a st))"
  by (simp add: reconcile_step_def)

lemma rows_reconcile: "prefix (rows st) (rows (reconcile anns st))"
proof (induction anns arbitrary: st)
  case Nil
  then show ?case by simp
next
  case (Cons a anns)
  have "prefix (rows st) (rows (reconcile_step a st))" by (rule rows_step)
  also have "prefix \<dots> (rows (reconcile anns (reconcile_step a st)))" by (rule Cons.IH)
  finally show ?case by simp
qed

text \<open>
  What the loop does: an annotation is written exactly if its type is one of the
  written ones and its text equals the slice of the variable \<open>text\<close> at its offsets,
  or the slice at the same offsets of that text without its newlines; a row once
  written stays; and up to the first \<open>placeName\<close> or \<open>persName\<close> that variable is the
  text of the document.
\<close>

lemma reconcile_characterised:
  "written (reconcile_step a st) =
     written st @
     (if ann_type a \<in> set annotation_types \<and>
         (Some (py_slice (text_var st) (start_offset a) (end_offset a)) = ann_text a \<or>
          Some (py_slice (replace_newlines (text_var st)) (start_offset a) (end_offset a)) =
            ann_text a)
      then [row_of a] else []) \<and>
   prefix (rows st) (rows (reconcile anns st)) \<and>
   ((\<forall>b \<in> set pre. ann_type b \<noteq> ''placeName'' \<and> ann_type b \<noteq> ''persName'') \<longrightarrow>
      written (reconcile (pre @ [a]) (start_state t counters)) =
        map row_of (filter (\<lambda>b. ann_type b \<in> set annotation_types \<and>
          (Some (py_slice t (start_offset b) (end_offset b)) = ann_text b \<or>
           Some (py_slice (replace_newlines t) (start_offset b) (end_offset b)) = ann_text b))
          (pre @ [a])))"
proof (intro conjI impI)
  show "written (reconcile_step a st) =
     written st @
     (if ann_type a \<in> set annotation_types \<and>
         (Some (py_slice (text_var st) (start_offset a) (end_offset a)) = ann_text a \<or>
          Some (py_slice (replace_newlines (text_var st)) (start_offset a) (end_offset a)) =
            ann_text a)
      then [row_of a] else [])"
    by (simp add: written_step handled_def check_cond_def)
  show "prefix (rows st) (rows (reconcile anns st))" by (rule rows_reconcile)
next
  assume h: "\<forall>b \<in> set pre. ann_type b \<noteq> ''placeName'' \<and> ann_type b \<noteq> ''persName''"
  let ?s = "start_state t counters"
  have s: "text_var ?s = t" "written ?s = []" by (simp_all add: start_state_def written_def)
  from reconcile_no_names [OF h, of ?s] s
  have 1: "text_var (reconcile pre ?s) = t"
    and 2: "written (reconcile pre ?s) = map row_of (filter (handled t) pre)" by simp_all
  have "written (reconcile (pre @ [a]) ?s) = written (reconcile_step a (reconcile pre ?s))"
    by (simp add: reconcile_append)
  also have "\<dots> = map row_of (filter (handled t) (pre @ [a]))"
    by (simp add: written_step 1 2)
  finally show "written (reconcile (pre @ [a]) ?s) =
        map row_of (filter (\<lambda>b. ann_type b \<in> set annotation_types \<and>
          (Some (py_slice t (start_offset b) (end_offset b)) = ann_text b \<or>
           Some (py_slice (replace_newlines t) (start_offset b) (end_offset b)) = ann_text b))
          (pre @ [a]))"
    by (simp add: handled_def check_cond_def cong: filter_cong)
qed

text \<open>
  Claim C8. The fallback is to compare the slice and the stored text with the newlines
  removed from both, and an annotation is dropped only if that fails too. The loop
  does otherwise on two documents. In the first, a name broken by a line break is
  followed by more text: slice and stored text agree once the newline is removed,
  but the loop slices the text without newlines at the old offsets, gets one character
  too many and drops the annotation. In the second, the text of a \<open>placeName\<close> that was
  written has replaced the variable \<open>text\<close>, and the \<open>persName\<close> after it, whose slice
  of the document equals its text, is dropped.
\<close>

theorem reconcile_drops_matching_annotations:
  "doc_text (document_of ''f.xml'' linebreak_name_example) =
     ''Hans'' @ [newline] @ ''Muster von Bern'' \<and>
   doc_annotations (document_of ''f.xml'' linebreak_name_example) =
     [\<lparr>ann_type = ''persName'', attributes = Some [(''ref'', ''per1'')],
       ann_text = Some ''HansMuster'', alternative_text = None,
       start_offset = 0, end_offset = 11, page = None, details = None\<rparr>] \<and>
   py_slice (doc_text (document_of ''f.xml'' linebreak_name_example)) 0 11 =
     ''Hans'' @ [newline] @ ''Muster'' \<and>
   py_slice (replace_newlines (doc_text (document_of ''f.xml'' linebreak_name_example))) 0 11 =
     ''HansMuster '' \<and>
   list_all (fallback_spec (doc_text (document_of ''f.xml'' linebreak_name_example)))
     (doc_annotations (document_of ''f.xml'' linebreak_name_example)) \<and>
   written (reconcile (doc_annotations (document_of ''f.xml'' linebreak_name_example))
     (start_state (doc_text (document_of ''f.xml'' linebreak_name_example)) counters1)) = [] \<and>
   doc_text (document_of ''f.xml'' two_names_example) = ''Bern und Hans'' \<and>
   map row_of (doc_annotations (document_of ''f.xml'' two_names_example)) =
     [(''placeName'', 0, 4), (''persName'', 9, 13)] \<and>
   py_slice (doc_text (document_of ''f.xml'' two_names_example)) 9 13 = ''Hans'' \<and>
   written (reconcile (doc_annotations (document_of ''f.xml'' two_names_example))
     (start_state (doc_text (document_of ''f.xml'' two_names_example)) counters1)) =
     [(''placeName'', 0, 4)]"
  by (intro conjI; code_simp)

lemma reconcile_keeps_name_at_end:
  "written (reconcile (doc_annotations (document_of ''f.xml'' linebreak_name_end_example))
     (start_state (doc_text (document_of ''f.xml'' linebreak_name_end_example)) counters1)) =
     [(''persName'', 6, 17)]"
  by code_simp

section \<open>Malformed markup and unreadable documents\<close>

lemma process_files_concat:
  "process_files parse fs =
     concat (map (\<lambda>f. case parse f of Inl e \<Rightarrow> [] | Inr root \<Rightarrow> [document_of f root]) fs)"
  by (induction fs) (auto simp: extract_document_data_def split: sum.splits)

text \<open>
  Claim C9, amended. A \<open>choice\<close> or \<open>subst\<close> element that lacks one of its two nested
  elements is processed like any other: the missing side is \<open>None\<close>, nothing is appended
  for it, and the annotation records \<open>None\<close> for it (for a \<open>choice\<close> without
  abbreviation whose expansion is empty, \<open>None\<close> is the text and the empty expansion the
  alternative). The loop over the children goes on with the tail text and the next
  child after every element. \<open>process_corpus\<close> leaves out exactly the files whose
  extraction raised and keeps every directory, in order.
\<close>

theorem malformed_markup:
  "(local_name (el_tag el) = ''choice'' \<and> find_descendant ''expan'' el = None \<longrightarrow>
      process_element el ctx =
        (let abbr_text = map_option get_element_text (find_descendant ''abbr'' el);
             ctx1 = add_text_to_context abbr_text ctx
         in ctx1\<lparr>annotations := annotations ctx @
              [\<lparr>ann_type = ''choice'', attributes = None, ann_text = abbr_text,
                alternative_text = None, start_offset = global_offset ctx,
                end_offset = global_offset ctx1, page = current_page ctx,
                details = None\<rparr>]\<rparr>)) \<and>
   (local_name (el_tag el) = ''choice'' \<and> find_descendant ''abbr'' el = None \<longrightarrow>
      process_element el ctx =
        (let expan_text = map_option get_element_text (find_descendant ''expan'' el);
             ctx1 = add_text_to_context expan_text ctx
         in ctx1\<lparr>annotations := annotations ctx @
              [\<lparr>ann_type = ''choice'', attributes = None,
                ann_text = (if truthy expan_text then expan_text else None),
                alternative_text = (if truthy expan_text then None else expan_text),
                start_offset = global_offset ctx,
                end_offset = global_offset ctx1, page = current_page ctx,
                details = None\<rparr>]\<rparr>)) \<and>
   (local_name (el_tag el) = ''subst'' \<and> find_descendant ''add'' el = None \<longrightarrow>
      process_element el ctx =
        ctx\<lparr>annotations := annotations ctx @
          [\<lparr>ann_type = ''substitution'', attributes = None, ann_text = None,
            alternative_text = map_option get_element_text (find_descendant ''del'' el),
            start_offset = global_offset ctx, end_offset = global_offset ctx,
            page = current_page ctx,
            details = Some (map_option get_element_text (find_descendant ''del'' el), None)\<rparr>]\<rparr>) \<and>
   (local_name (el_tag el) = ''subst'' \<and> find_descendant ''del'' el = None \<longrightarrow>
      process_element el ctx =
        (let add_text = map_option get_element_text (find_descendant ''add'' el);
             ctx1 = add_text_to_context add_text ctx
         in ctx1\<lparr>annotations := annotations ctx @
              [\<lparr>ann_type = ''substitution'', attributes = None, ann_text = add_text,
                alternative_text = None, start_offset = global_offset ctx,
                end_offset = global_offset ctx1, page = current_page ctx,
                details = Some (None, add_text)\<rparr>]\<rparr>)) \<and>
   process_children (el # els) ctx =
     process_children els (add_text_to_context (tail el) (process_element el ctx)) \<and>
   process_files parse fs =
     concat (map (\<lambda>f. case parse f of Inl e \<Rightarrow> [] | Inr root \<Rightarrow> [document_of f root]) fs) \<and>
   map fst (process_corpus parse dirs) = map fst dirs \<and>
   map snd (process_corpus parse dirs) = map (process_files parse) (map snd dirs)"
proof (intro conjI impI)
  assume h: "local_name (el_tag el) = ''choice'' \<and> find_descendant ''expan'' el = None"
  then have "process_element el ctx = process_choice el ctx"
    by (cases el) (simp add: Let_def)
  with h show "process_element el ctx =
        (let abbr_text = map_option get_element_text (find_descendant ''abbr'' el);
             ctx1 = add_text_to_context abbr_text ctx
         in ctx1\<lparr>annotations := annotations ctx @
              [\<lparr>ann_type = ''choice'', attributes = None, ann_text = abbr_text,
                alternative_text = None, start_offset = global_offset ctx,
                end_offset = global_offset ctx1, page = current_page ctx,
                details = None\<rparr>]\<rparr>)"
    by (auto simp: process_choice_def Let_def add_text_not_truthy)
next
  assume h: "local_name (el_tag el) = ''choice'' \<and> find_descendant ''abbr'' el = None"
  then have "process_element el ctx = process_choice el ctx"
    by (cases el) (simp add: Let_def)
  with h show "process_element el ctx =
        (let expan_text = map_option get_element_text (find_descendant ''expan'' el);
             ctx1 = add_text_to_context expan_text ctx
         in ctx1\<lparr>annotations := annotations ctx @
              [\<lparr>ann_type = ''choice'', attributes = None,
                ann_text = (if truthy expan_text then expan_text else None),
                alternative_text = (if truthy expan_text then None else expan_text),
                start_offset = global_offset ctx,
                end_offset = global_offset ctx1, page = current_page ctx,
                details = None\<rparr>]\<rparr>)"
    by (auto simp: process_choice_def Let_def add_text_not_truthy)
next
  assume h: "local_name (el_tag el) = ''subst'' \<and> find_descendant ''add'' el = None"
  then have "process_element el ctx = process_subst el ctx"
    by (cases el) (simp add: Let_def)
  with h show "process_element el ctx =
        ctx\<lparr>annotations := annotations ctx @
          [\<lparr>ann_type = ''substitution'', attributes = None, ann_text = None,
            alternative_text = map_option get_element_text (find_descendant ''del'' el),
            start_offset = global_offset ctx, end_offset = global_offset ctx,
            page = current_page ctx,
            details = Some (map_option get_element_text (find_descendant ''del'' el), None)\<rparr>]\<rparr>"
    by (simp add: process_subst_def Let_def)
next
  assume h: "local_name (el_tag el) = ''subst'' \<and> find_descendant ''del'' el = None"
  then have "process_element el ctx = process_subst el ctx"
    by (cases el) (simp add: Let_def)
  with h show "process_element el ctx =
        (let add_text = map_option get_element_text (find_descendant ''add'' el);
             ctx1 = add_text_to_context add_text ctx
         in ctx1\<lparr>annotations := annotations ctx @
              [\<lparr>ann_type = ''substitution'', attributes = None, ann_text = add_text,
                alternative_text = None, start_offset = global_offset ctx,
                end_offset = global_offset ctx1, page = current_page ctx,
                details = Some (None, add_text)\<rparr>]\<rparr>)"
    by (auto simp: process_subst_def Let_def add_text_not_truthy)
next
  show "process_children (el # els) ctx =
     process_children els (add_text_to_context (tail el) (process_element el ctx))"
    by (simp add: Let_def add_text_not_truthy)
  show "process_files parse fs =
     concat (map (\<lambda>f. case parse f of Inl e \<Rightarrow> [] | Inr root \<Rightarrow> [document_of f root]) fs)"
    by (rule process_files_concat)
  show "map fst (process_corpus parse dirs) = map fst dirs"
    by (induction dirs) (auto simp: process_corpus_def)
  show "map snd (process_corpus parse dirs) = map (process_files parse) (map snd dirs)"
    by (induction dirs) (auto simp: process_corpus_def)
qed

text \<open>
  Claim C9 as stated fails: a missing side is not treated as the empty string. The
  annotation records \<open>None\<close> where an empty element gives the empty string, and the
  reconciliation drops the substitution without insertion, whose text is \<open>None\<close>, and
  writes the one with an empty insertion.
\<close>

theorem malformed_markup_counterexample:
  "alternative_text (hd (annotations (process_element choice_no_expan initial_context))) = None \<and>
   alternative_text (hd (annotations (process_element choice_empty_expan initial_context))) =
     Some [] \<and>
   ann_text (hd (annotations (process_element subst_no_add initial_context))) = None \<and>
   ann_text (hd (annotations (process_element subst_empty_add initial_context))) = Some [] \<and>
   written (reconcile (annotations (process_element subst_no_add initial_context))
     (start_state [] counters1)) = [] \<and>
   written (reconcile (annotations (process_element subst_empty_add initial_context))
     (start_state [] counters1)) = [(''substitution'', 0, 0)]"
  by (intro conjI; code_simp)

theorem malformed_markup_witness:
  "local_name (el_tag choice_no_expan) = ''choice'' \<and>
   find_descendant ''expan'' choice_no_expan = None \<and>
   process_element choice_no_expan initial_context =
     \<lparr>text_content = ''Jan.'',
      annotations = [\<lparr>ann_type = ''choice'', attributes = None, ann_text = Some ''Jan.'',
         alternative_text = None, start_offset = 0, end_offset = 4,
         page = None, details = None\<rparr>],
      pages = [], current_page = None, global_offset = 4, ctx_alternative_text = None,
      last_char_is_whitespace = False\<rparr> \<and>
   local_name (el_tag subst_no_add) = ''subst'' \<and>
   find_descendant ''add'' subst_no_add = None \<and>
   process_element subst_no_add initial_context =
     \<lparr>text_content = [],
      annotations = [\<lparr>ann_type = ''substitution'', attributes = None, ann_text = None,
         alternative_text = Some ''teh'', start_offset = 0, end_offset = 0,
         page = None, details = Some (Some ''teh'', None)\<rparr>],
      pages = [], current_page = None, global_offset = 0, ctx_alternative_text = None,
      last_char_is_whitespace = True\<rparr> \<and>
   map doc_file_path (process_files parse_example [''a.xml'', ''bad.xml'', ''b.xml'']) =
     [''a.xml'', ''b.xml'']"
proof -
  have n1: "local_name (el_tag choice_no_expan) = ''choice'' \<and>
      find_descendant ''expan'' choice_no_expan = None"
    by code_simp
  have n2: "local_name (el_tag subst_no_add) = ''subst'' \<and>
      find_descendant ''add'' subst_no_add = None"
    by code_simp
  note i1 = malformed_markup [of choice_no_expan initial_context "[]" parse_example
      "[''a.xml'', ''bad.xml'', ''b.xml'']" "[]"]
  note i2 = malformed_markup [of subst_no_add initial_context "[]" parse_example
      "[''a.xml'', ''bad.xml'', ''b.xml'']" "[]"]
  from i1 n1 have e1: "process_element choice_no_expan initial_context =
        (let abbr_text = map_option get_element_text (find_descendant ''abbr'' choice_no_expan);
             ctx1 = add_text_to_context abbr_text initial_context
         in ctx1\<lparr>annotations := annotations initial_context @
              [\<lparr>ann_type = ''choice'', attributes = None, ann_text = abbr_text,
                alternative_text = None, start_offset = global_offset initial_context,
                end_offset = global_offset ctx1, page = current_page initial_context,
                details = None\<rparr>]\<rparr>)"
    by blast
  have v1: "(let abbr_text = map_option get_element_text (find_descendant ''abbr'' choice_no_expan);
             ctx1 = add_text_to_context abbr_text initial_context
         in ctx1\<lparr>annotations := annotations initial_context @
              [\<lparr>ann_type = ''choice'', attributes = None, ann_text = abbr_text,
                alternative_text = None, start_offset = global_offset initial_context,
                end_offset = global_offset ctx1, page = current_page initial_context,
                details = None\<rparr>]\<rparr>) =
     \<lparr>text_content = ''Jan.'',
      annotations = [\<lparr>ann_type = ''choice'', attributes = None, ann_text = Some ''Jan.'',
         alternative_text = None, start_offset = 0, end_offset = 4,
         page = None, details = None\<rparr>],
      pages = [], current_page = None, global_offset = 4, ctx_alternative_text = None,
      last_char_is_whitespace = False\<rparr>"
    by code_simp
  from i2 n2 have e2: "process_element subst_no_add initial_context =
        initial_context\<lparr>annotations := annotations initial_context @
          [\<lparr>ann_type = ''substitution'', attributes = None, ann_text = None,
            alternative_text = map_option get_element_text (find_descendant ''del'' subst_no_add),
            start_offset = global_offset initial_context, end_offset = global_offset initial_context,
            page = current_page initial_context,
            details = Some (map_option get_element_text (find_descendant ''del'' subst_no_add), None)\<rparr>]\<rparr>"
    by blast
  have v2: "initial_context\<lparr>annotations := annotations initial_context @
          [\<lparr>ann_type = ''substitution'', attributes = None, ann_text = None,
            alternative_text = map_option get_element_text (find_descendant ''del'' subst_no_add),
            start_offset = global_offset initial_context, end_offset = global_offset initial_context,
            page = current_page initial_context,
            details = Some (map_option get_element_text (find_descendant ''del'' subst_no_add), None)\<rparr>]\<rparr> =
     \<lparr>text_content = [],
      annotations = [\<lparr>ann_type = ''substitution'', attributes = None, ann_text = None,
         alternative_text = Some ''teh'', start_offset = 0, end_offset = 0,
         page = None, details = Some (Some ''teh'', None)\<rparr>],
      pages = [], current_page = None, global_offset = 0, ctx_alternative_text = None,
      last_char_is_whitespace = True\<rparr>"
    by code_simp
  from i1 have e3: "process_files parse_example [''a.xml'', ''bad.xml'', ''b.xml''] =
     concat (map (\<lambda>f. case parse_example f of Inl e \<Rightarrow> [] | Inr root \<Rightarrow> [document_of f root])
       [''a.xml'', ''bad.xml'', ''b.xml''])"
    by blast
  have v3: "map doc_file_path
     (concat (map (\<lambda>f. case parse_example f of Inl e \<Rightarrow> [] | Inr root \<Rightarrow> [document_of f root])
       [''a.xml'', ''bad.xml'', ''b.xml''])) = [''a.xml'', ''b.xml'']"
    by code_simp
  from n1 n2 e1 v1 e2 v2 e3 v3 show ?thesis by (simp only: simp_thms)
qed

end
